theory Spec2Isabelle
  imports Main "HOL-Library.Word"
begin

section \<open>The cache storage of cstorage.go\<close>

text \<open>
  The Go package keeps a hash table from keys to nodes and threads the same nodes on a
  doubly linked list, from the most recently used node (\<open>head\<close>) to the least recently
  used one (\<open>tail\<close>). Nodes are shared between the table and the list through pointers,
  so the model has an explicit store: a pointer is \<open>addr option\<close> (\<open>None\<close> is Go's
  \<open>nil\<close>), and \<open>heap\<close> maps an address to the node stored there. Dereferencing
  \<open>nil\<close> panics in Go; here it is the result \<open>Inl NilDereference\<close>.

  \<open>int64\<close> is \<open>64 word\<close>, compared as a signed number. A \<open>time.Time\<close> is an
  integer instant and \<open>time.Now()\<close> is a parameter of each operation. The mutex is
  not part of the model: the operations are modelled one call at a time.
\<close>

subsection \<open>Data\<close>

type_synonym addr = nat
type_synonym time = int
type_synonym byte = "8 word"
type_synonym int64 = "64 word"

datatype panic = NilDereference

record node =
  key :: string
  data :: "byte list"
  ttl :: time
  prev :: "addr option"
  "next" :: "addr option"

record CStorageConfig =
  Ttl :: time
  Capacity :: int64

text \<open>
  \<open>heap\<close> and \<open>fresh\<close> stand for Go's memory: \<open>heap\<close> holds the nodes, and
  \<open>fresh\<close> is the address that the next \<open>&node{...}\<close> returns.
\<close>

record CStorage =
  table :: "string \<rightharpoonup> addr"
  head :: "addr option"
  tail :: "addr option"
  size' :: int64
  config :: CStorageConfig
  heap :: "addr \<Rightarrow> node"
  fresh :: addr

definition nil_node :: node where
  "nil_node = \<lparr>key = [], data = [], ttl = 0, prev = None, next = None\<rparr>"

definition set_prev :: "addr \<Rightarrow> addr option \<Rightarrow> (addr \<Rightarrow> node) \<Rightarrow> (addr \<Rightarrow> node)" where
  "set_prev a p h = h(a := (h a)\<lparr>prev := p\<rparr>)"

definition set_next :: "addr \<Rightarrow> addr option \<Rightarrow> (addr \<Rightarrow> node) \<Rightarrow> (addr \<Rightarrow> node)" where
  "set_next a q h = h(a := (h a)\<lparr>next := q\<rparr>)"

subsection \<open>Construction\<close>

definition New :: "CStorageConfig \<Rightarrow> CStorage" where
  "New cfg = \<lparr>table = Map.empty, head = None, tail = None, size' = 0, config = cfg,
     heap = (\<lambda>_. nil_node), fresh = 0\<rparr>"

subsection \<open>The linked list\<close>

text \<open>\<open>setHead\<close> moves node \<open>n\<close> to the head of the list.\<close>

definition setHead :: "addr option \<Rightarrow> CStorage \<Rightarrow> panic + CStorage" where
  "setHead n s =
    (case n of
       None \<Rightarrow> Inr s
     | Some a \<Rightarrow>
        (case head s of
           None \<Rightarrow> Inr (s\<lparr>head := Some a, tail := Some a\<rparr>)
         | Some b \<Rightarrow>
            if b = a then Inr s
            else if tail s = Some a then
              (case prev (heap s a) of
                 None \<Rightarrow> Inl NilDereference
               | Some t \<Rightarrow>
                  let h1 = set_next t None (heap s);
                      h2 = set_prev a None h1;
                      h3 = set_prev b (Some a) h2;
                      h4 = set_next a (Some b) h3
                  in Inr (s\<lparr>tail := Some t, head := Some a, heap := h4\<rparr>))
            else
              let h0 = heap s;
                  h1 = (case prev (h0 a) of None \<Rightarrow> h0 | Some p \<Rightarrow> set_next p (next (h0 a)) h0);
                  h2 = (case next (h1 a) of None \<Rightarrow> h1 | Some q \<Rightarrow> set_prev q (prev (h1 a)) h1);
                  h3 = set_prev a None h2;
                  h4 = set_prev b (Some a) h3;
                  h5 = set_next a (Some b) h4
              in Inr (s\<lparr>head := Some a, heap := h5\<rparr>)))"

text \<open>
  \<open>evict\<close> unlinks node \<open>n\<close> and deletes its key from the table. It has no \<open>nil\<close>
  check: every branch dereferences \<open>n\<close>.
\<close>

definition evict :: "addr option \<Rightarrow> CStorage \<Rightarrow> panic + CStorage" where
  "evict n s =
    (if head s = tail s \<and> head s = n then
       (case n of
          None \<Rightarrow> Inl NilDereference
        | Some a \<Rightarrow>
           let h1 = set_prev a None (heap s);
               h2 = set_next a None h1
           in Inr (s\<lparr>head := None, tail := None, heap := h2,
                     table := (table s)(key (h2 a) := None)\<rparr>))
     else if head s = n then
       (case n of
          None \<Rightarrow> Inl NilDereference
        | Some a \<Rightarrow>
           (case next (heap s a) of
              None \<Rightarrow> Inl NilDereference
            | Some b \<Rightarrow>
               let h1 = set_prev b None (heap s);
                   h2 = set_prev a None h1;
                   h3 = set_next a None h2
               in Inr (s\<lparr>head := Some b, heap := h3,
                         table := (table s)(key (h3 a) := None)\<rparr>)))
     else if tail s = n then
       (case n of
          None \<Rightarrow> Inl NilDereference
        | Some a \<Rightarrow>
           (case prev (heap s a) of
              None \<Rightarrow> Inl NilDereference
            | Some t \<Rightarrow>
               let h1 = set_next t None (heap s);
                   h2 = set_prev a None h1;
                   h3 = set_next a None h2
               in Inr (s\<lparr>tail := Some t, heap := h3,
                         table := (table s)(key (h3 a) := None)\<rparr>)))
     else
       (case n of
          None \<Rightarrow> Inl NilDereference
        | Some a \<Rightarrow>
           let h0 = heap s;
               h1 = (case prev (h0 a) of None \<Rightarrow> h0 | Some p \<Rightarrow> set_next p (next (h0 a)) h0);
               h2 = (case next (h1 a) of None \<Rightarrow> h1 | Some q \<Rightarrow> set_prev q (prev (h1 a)) h1);
               h3 = set_prev a None h2;
               h4 = set_next a None h3
           in Inr (s\<lparr>heap := h4, table := (table s)(key (h4 a) := None)\<rparr>)))"

subsection \<open>The public operations\<close>

text \<open>
  \<open>Get\<close> returns \<open>(data, hit)\<close>. An entry whose \<open>ttl\<close> lies before \<open>now\<close> is
  evicted; any other entry is returned, and the list is left as it is.
\<close>

definition Get :: "string \<Rightarrow> time \<Rightarrow> CStorage \<Rightarrow> panic + (CStorage \<times> byte list \<times> bool)" where
  "Get k now s =
    (case table s k of
       None \<Rightarrow> Inr (s, [], False)
     | Some a \<Rightarrow>
        if ttl (heap s a) < now then
          (case evict (Some a) s of
             Inl e \<Rightarrow> Inl e
           | Inr s1 \<Rightarrow> Inr (s1\<lparr>size' := size' s1 - 1\<rparr>, [], False))
        else Inr (s, data (heap s a), True))"

text \<open>
  The loop of \<open>Put\<close> that makes room: while \<open>size >= Capacity\<close> it evicts the tail.
  On a list that is not well formed the loop of the source need not end, so the model
  is a partial function: \<open>None\<close> stands for a loop that runs forever.
\<close>

partial_function (option) make_room :: "CStorage \<Rightarrow> (panic + CStorage) option" where
  "make_room s =
    (if Capacity (config s) \<le>s size' s then
       (case evict (tail s) s of
          Inl e \<Rightarrow> Some (Inl e)
        | Inr s1 \<Rightarrow> make_room (s1\<lparr>size' := size' s1 - 1\<rparr>))
     else Some (Inr s))"

declare make_room.simps [code]

definition Put :: "string \<Rightarrow> byte list \<Rightarrow> time \<Rightarrow> CStorage \<Rightarrow> (panic + (CStorage \<times> bool)) option" where
  "Put k d now s =
    (let t = now + Ttl (config s) in
     case table s k of
       Some a \<Rightarrow>
        (let h1 = (heap s)(a := (heap s a)\<lparr>data := d\<rparr>);
             h2 = h1(a := (h1 a)\<lparr>ttl := t\<rparr>)
         in case setHead (Some a) (s\<lparr>heap := h2\<rparr>) of
              Inl e \<Rightarrow> Some (Inl e)
            | Inr s1 \<Rightarrow> Some (Inr (s1, True)))
     | None \<Rightarrow>
        (case make_room s of
           None \<Rightarrow> None
         | Some (Inl e) \<Rightarrow> Some (Inl e)
         | Some (Inr s1) \<Rightarrow>
            let a = fresh s1;
                s2 = s1\<lparr>heap := (heap s1)(a := \<lparr>key = k, data = d, ttl = t, prev = None, next = None\<rparr>),
                        fresh := Suc a\<rparr>;
                s3 = s2\<lparr>table := (table s2)(k \<mapsto> a)\<rparr>
            in case setHead (Some a) s3 of
                 Inl e \<Rightarrow> Some (Inl e)
               | Inr s4 \<Rightarrow> Some (Inr (s4\<lparr>size' := size' s4 + 1\<rparr>, False))))"

definition Delete :: "string \<Rightarrow> CStorage \<Rightarrow> panic + (CStorage \<times> bool)" where
  "Delete k s =
    (case table s k of
       None \<Rightarrow> Inr (s, False)
     | Some a \<Rightarrow>
        (case evict (Some a) s of
           Inl e \<Rightarrow> Inl e
         | Inr s1 \<Rightarrow> Inr (s1\<lparr>size' := size' s1 - 1\<rparr>, True)))"

partial_function (option) Clear_loop :: "CStorage \<Rightarrow> (panic + CStorage) option" where
  "Clear_loop s =
    (if head s \<noteq> None then
       (case evict (tail s) s of
          Inl e \<Rightarrow> Some (Inl e)
        | Inr s1 \<Rightarrow> Clear_loop s1)
     else Some (Inr s))"

declare Clear_loop.simps [code]

definition Clear :: "CStorage \<Rightarrow> (panic + CStorage) option" where
  "Clear s =
    (case Clear_loop s of
       None \<Rightarrow> None
     | Some (Inl e) \<Rightarrow> Some (Inl e)
     | Some (Inr s1) \<Rightarrow> Some (Inr (s1\<lparr>size' := 0\<rparr>)))"

definition Size :: "CStorage \<Rightarrow> int64" where
  "Size s = size' s"

definition Cap :: "CStorage \<Rightarrow> int64" where
  "Cap s = Capacity (config s)"

text \<open>
  \<open>RemoveExpired\<close> ranges over the table. Go leaves the order of a \<open>range\<close> over a
  map open, and the loop reads the clock once for each entry, so the model takes the
  visits as a list: the keys in the order of the \<open>range\<close>, each with the clock reading
  of its iteration. A key that is no longer in the table is not produced by the
  \<open>range\<close>.
\<close>

fun RemoveExpired_loop :: "(string \<times> time) list \<Rightarrow> CStorage \<Rightarrow> int64 \<Rightarrow> panic + (CStorage \<times> int64)" where
  "RemoveExpired_loop [] s count = Inr (s, count)"
| "RemoveExpired_loop ((k, now) # vs) s count =
    (case table s k of
       None \<Rightarrow> RemoveExpired_loop vs s count
     | Some a \<Rightarrow>
        if ttl (heap s a) < now then
          (case Delete k s of
             Inl e \<Rightarrow> Inl e
           | Inr (s1, _) \<Rightarrow> RemoveExpired_loop vs s1 (count + 1))
        else RemoveExpired_loop vs s count)"

definition RemoveExpired :: "(string \<times> time) list \<Rightarrow> CStorage \<Rightarrow> panic + (CStorage \<times> int64)" where
  "RemoveExpired vs s = RemoveExpired_loop vs s 0"


subsection \<open>Well-formed states\<close>

text \<open>
  The list of a state is described by the addresses of its nodes, from the head to the
  tail. \<open>chain f p xs q\<close>: following \<open>f\<close> from pointer \<open>p\<close> visits exactly the
  addresses \<open>xs\<close> and ends in pointer \<open>q\<close>.
\<close>

definition nexts :: "(addr \<Rightarrow> node) \<Rightarrow> addr \<Rightarrow> addr option" where
  "nexts h a = next (h a)"

definition prevs :: "(addr \<Rightarrow> node) \<Rightarrow> addr \<Rightarrow> addr option" where
  "prevs h a = prev (h a)"

fun chain :: "(addr \<Rightarrow> addr option) \<Rightarrow> addr option \<Rightarrow> addr list \<Rightarrow> addr option \<Rightarrow> bool" where
  "chain f p [] q = (p = q)"
| "chain f p (a # as) q = (p = Some a \<and> chain f (f a) as q)"

text \<open>
  \<open>linked s xs\<close>: the \<open>next\<close> pointers lead from \<open>head\<close> through \<open>xs\<close> to \<open>nil\<close>,
  and the \<open>prev\<close> pointers lead from \<open>tail\<close> through \<open>xs\<close> backwards to \<open>nil\<close>.
\<close>

definition linked :: "CStorage \<Rightarrow> addr list \<Rightarrow> bool" where
  "linked s xs = (chain (nexts (heap s)) (head s) xs None \<and>
                  chain (prevs (heap s)) (tail s) (rev xs) None \<and> distinct xs)"

text \<open>\<open>indexed s xs\<close>: the table holds exactly the nodes of the list, each under its key.\<close>

definition indexed :: "CStorage \<Rightarrow> addr list \<Rightarrow> bool" where
  "indexed s xs = (\<forall>k a. table s k = Some a \<longleftrightarrow> a \<in> set xs \<and> key (heap s a) = k)"

definition wellformed :: "CStorage \<Rightarrow> addr list \<Rightarrow> bool" where
  "wellformed s xs = (linked s xs \<and> indexed s xs \<and> (\<forall>a \<in> set xs. a < fresh s))"

text \<open>
  \<open>invariant s xs\<close>: the state is well formed with the nodes \<open>xs\<close>, \<open>size\<close> counts them,
  and there are no more of them than the capacity allows.
\<close>

definition invariant :: "CStorage \<Rightarrow> addr list \<Rightarrow> bool" where
  "invariant s xs = (wellformed s xs \<and> sint (size' s) = int (length xs) \<and>
     int (length xs) \<le> max 0 (sint (Capacity (config s))))"

text \<open>The keys of the list, most recently used first.\<close>

definition keys_of :: "CStorage \<Rightarrow> addr list \<Rightarrow> string list" where
  "keys_of s xs = map (\<lambda>a. key (heap s a)) xs"

text \<open>What an operation on the list leaves alone.\<close>

definition same_payload :: "CStorage \<Rightarrow> CStorage \<Rightarrow> bool" where
  "same_payload s s' = (\<forall>x. key (heap s' x) = key (heap s x) \<and> data (heap s' x) = data (heap s x)
       \<and> ttl (heap s' x) = ttl (heap s x))"

definition same_frame :: "CStorage \<Rightarrow> CStorage \<Rightarrow> bool" where
  "same_frame s s' = (size' s' = size' s \<and> config s' = config s \<and> fresh s' = fresh s \<and>
     same_payload s s')"

text \<open>
  The states that a client can reach through the public operations, from a fresh
  engine, by calls that return. \<open>RemoveExpired\<close> may take any list of visits here, so
  every order of its \<open>range\<close> and every clock are covered.
\<close>

inductive reachable :: "CStorageConfig \<Rightarrow> CStorage \<Rightarrow> bool" for cfg :: CStorageConfig where
  reach_New: "reachable cfg (New cfg)"
| reach_Get: "reachable cfg s \<Longrightarrow> Get k now s = Inr (s', d, hit) \<Longrightarrow> reachable cfg s'"
| reach_Put: "reachable cfg s \<Longrightarrow> Put k d now s = Some (Inr (s', hit)) \<Longrightarrow> reachable cfg s'"
| reach_Delete: "reachable cfg s \<Longrightarrow> Delete k s = Inr (s', hit) \<Longrightarrow> reachable cfg s'"
| reach_Clear: "reachable cfg s \<Longrightarrow> Clear s = Some (Inr s') \<Longrightarrow> reachable cfg s'"
| reach_RemoveExpired: "reachable cfg s \<Longrightarrow> RemoveExpired vs s = Inr (s', n) \<Longrightarrow> reachable cfg s'"

text \<open>A run of \<open>Put\<close> calls, each with its key, its data and its clock reading.\<close>

fun Puts :: "(string \<times> byte list \<times> time) list \<Rightarrow> CStorage \<Rightarrow> (panic + CStorage) option" where
  "Puts [] s = Some (Inr s)"
| "Puts ((k, d, now) # ps) s =
    (case Put k d now s of
       None \<Rightarrow> None
     | Some (Inl e) \<Rightarrow> Some (Inl e)
     | Some (Inr (s1, _)) \<Rightarrow> Puts ps s1)"

subsection \<open>A small cache, for concrete runs\<close>

text \<open>
  A cache for two entries with a time to live of 100, after \<open>Put("a", [1])\<close> at
  time 0 and \<open>Put("b", [2])\<close> at time 1: node 0 holds key \<open>a\<close> and is the tail,
  node 1 holds key \<open>b\<close> and is the head.
\<close>

definition cfg2 :: CStorageConfig where
  "cfg2 = \<lparr>Ttl = 100, Capacity = 2\<rparr>"

definition node_a :: node where
  "node_a = \<lparr>key = ''a'', data = [1], ttl = 100, prev = Some 1, next = None\<rparr>"

definition node_b :: node where
  "node_b = \<lparr>key = ''b'', data = [2], ttl = 101, prev = None, next = Some 0\<rparr>"

definition two_keys :: CStorage where
  "two_keys = \<lparr>table = [''a'' \<mapsto> 0, ''b'' \<mapsto> 1], head = Some 1, tail = Some 0, size' = 2,
     config = cfg2, heap = (\<lambda>_. nil_node)(0 := node_a, 1 := node_b), fresh = 2\<rparr>"

section \<open>The linked list keeps its shape\<close>

lemma chain_append: "chain f p (xs @ ys) q = (\<exists>r. chain f p xs r \<and> chain f r ys q)"
  by (induction xs arbitrary: p) auto

lemma chain_snoc: "chain f p (xs @ [a]) q = (chain f p xs (Some a) \<and> f a = q)"
  by (auto simp: chain_append)

lemma chain_upd: "a \<notin> set xs \<Longrightarrow> chain (f(a := v)) p xs q = chain f p xs q"
  by (induction xs arbitrary: p) auto

lemma chain_None: "chain f None xs q = (xs = [] \<and> q = None)"
  by (cases xs) auto

lemma chain_Some_notin: "a \<notin> set xs \<Longrightarrow> chain f (Some a) xs q = (xs = [] \<and> q = Some a)"
  by (cases xs) auto

lemma nexts_set_next: "nexts (set_next a q h) = (nexts h)(a := q)"
  by (auto simp: nexts_def set_next_def fun_eq_iff)

lemma nexts_set_prev: "nexts (set_prev a q h) = nexts h"
  by (auto simp: nexts_def set_prev_def fun_eq_iff)

lemma prevs_set_prev: "prevs (set_prev a q h) = (prevs h)(a := q)"
  by (auto simp: prevs_def set_prev_def fun_eq_iff)

lemma prevs_set_next: "prevs (set_next a q h) = prevs h"
  by (auto simp: prevs_def set_next_def fun_eq_iff)

lemma payload_set:
  "key (set_next a q h x) = key (h x)" "key (set_prev a q h x) = key (h x)"
  "data (set_next a q h x) = data (h x)" "data (set_prev a q h x) = data (h x)"
  "ttl (set_next a q h x) = ttl (h x)" "ttl (set_prev a q h x) = ttl (h x)"
  by (auto simp: set_next_def set_prev_def)

lemmas link_simps = nexts_set_next nexts_set_prev prevs_set_prev prevs_set_next payload_set
  nexts_def [symmetric] prevs_def [symmetric]

lemmas shape_simps = chain_Some_notin linked_def same_frame_def same_payload_def link_simps
  Let_def chain_snoc chain_append chain_upd chain_None

lemma linked_ends:
  assumes "linked s (ys @ a # zs)"
  shows "head s = Some (hd (ys @ [a]))" "tail s = Some (last (a # zs))"
    "nexts (heap s) a = (case zs of [] \<Rightarrow> None | q # _ \<Rightarrow> Some q)"
    "prevs (heap s) a = (if ys = [] then None else Some (last ys))"
    "distinct (ys @ a # zs)"
proof -
  show "head s = Some (hd (ys @ [a]))" using assms by (cases ys) (auto simp: linked_def)
  show "tail s = Some (last (a # zs))" using assms
    by (cases zs rule: rev_cases) (auto simp: linked_def)
  show "nexts (heap s) a = (case zs of [] \<Rightarrow> None | q # _ \<Rightarrow> Some q)"
    using assms by (cases zs) (auto simp: linked_def chain_append)
  show "prevs (heap s) a = (if ys = [] then None else Some (last ys))"
    using assms by (cases ys rule: rev_cases) (auto simp: linked_def chain_append)
  show "distinct (ys @ a # zs)" using assms by (simp add: linked_def)
qed

lemma evict_linked:
  assumes "linked s xs" "a \<in> set xs"
  shows "\<exists>s'. evict (Some a) s = Inr s' \<and> linked s' (remove1 a xs) \<and>
     table s' = (table s)(key (heap s a) := None) \<and> same_frame s s'"
proof -
  from assms(2) obtain ys zs where xs: "xs = ys @ a # zs" by (auto simp: in_set_conv_decomp)
  note e = linked_ends [OF assms(1) [unfolded xs]]
  have r: "remove1 a xs = ys @ zs" using e(5) xs by (simp add: remove1_append)
  show ?thesis
  proof (cases ys rule: rev_cases)
    case Nil
    show ?thesis
    proof (cases zs)
      case Nil
      with \<open>ys = []\<close> xs assms(1) e r show ?thesis
        by (auto simp: evict_def shape_simps)
    next
      case (Cons q zs')
      with \<open>ys = []\<close> xs assms(1) e r show ?thesis
        by (auto simp: evict_def shape_simps)
    qed
  next
    case (snoc ys' p)
    show ?thesis
    proof (cases zs)
      case Nil
      with snoc xs assms(1) e r show ?thesis
        by (auto simp: evict_def shape_simps)
    next
      case (Cons q zs')
      with snoc xs assms(1) e r show ?thesis
        by (auto simp: evict_def shape_simps)
    qed
  qed
qed

lemma setHead_linked:
  assumes "linked s xs" "a \<in> set xs"
  shows "\<exists>s'. setHead (Some a) s = Inr s' \<and> linked s' (a # remove1 a xs) \<and>
     table s' = table s \<and> same_frame s s'"
proof -
  from assms(2) obtain ys zs where xs: "xs = ys @ a # zs" by (auto simp: in_set_conv_decomp)
  note e = linked_ends [OF assms(1) [unfolded xs]]
  have r: "remove1 a xs = ys @ zs" using e(5) xs by (simp add: remove1_append)
  show ?thesis
  proof (cases ys)
    case Nil
    with xs assms(1) e r show ?thesis
      by (auto simp: setHead_def shape_simps)
  next
    case (Cons b ys')
    then obtain ys'' p where yp: "ys = ys'' @ [p]" by (metis list.distinct(1) rev_exhaust)
    show ?thesis
    proof (cases zs)
      case Nil
      with Cons yp xs assms(1) e r show ?thesis
        by (cases ys'') (auto simp: setHead_def shape_simps)
    next
      case (Cons q zs')
      with \<open>ys = b # ys'\<close> yp xs assms(1) e r show ?thesis
        by (cases ys'') (auto simp: setHead_def shape_simps)
    qed
  qed
qed

lemma setHead_linked_new:
  assumes "linked s xs" "a \<notin> set xs" "prev (heap s a) = None" "next (heap s a) = None"
  shows "\<exists>s'. setHead (Some a) s = Inr s' \<and> linked s' (a # xs) \<and>
     table s' = table s \<and> same_frame s s'"
proof (cases xs)
  case Nil
  with assms show ?thesis by (auto simp: setHead_def shape_simps)
next
  case (Cons b xs')
  then obtain xs'' t where "xs = xs'' @ [t]" by (metis list.distinct(1) rev_exhaust)
  with Cons assms show ?thesis
    by (cases xs'') (auto simp: setHead_def shape_simps)
qed

section \<open>The table and the list stay paired\<close>

lemma linked_cong:
  assumes "head s' = head s" "tail s' = tail s" "nexts (heap s') = nexts (heap s)"
    "prevs (heap s') = prevs (heap s)"
  shows "linked s' xs = linked s xs"
  using assms by (simp add: linked_def)

lemma linked_unique: "linked s xs \<Longrightarrow> linked s ys \<Longrightarrow> xs = ys"
proof -
  have "chain f p xs None \<Longrightarrow> chain f p ys None \<Longrightarrow> xs = ys" for f p
  proof (induction xs arbitrary: p ys)
    case Nil
    then show ?case by (cases ys) auto
  next
    case (Cons a xs)
    then show ?case by (cases ys) auto
  qed
  then show "linked s xs \<Longrightarrow> linked s ys \<Longrightarrow> xs = ys" by (auto simp: linked_def)
qed

lemma indexed_dom: "indexed s xs \<Longrightarrow> dom (table s) = set (keys_of s xs)"
  by (auto simp: indexed_def keys_of_def dom_def)

lemma indexed_distinct_keys: "indexed s xs \<Longrightarrow> distinct xs \<Longrightarrow> distinct (keys_of s xs)"
  unfolding keys_of_def distinct_map
  by (auto simp: indexed_def inj_on_def) (metis option.inject)

lemma indexed_card: "indexed s xs \<Longrightarrow> distinct xs \<Longrightarrow> card (dom (table s)) = length xs"
proof -
  assume a: "indexed s xs" "distinct xs"
  have "card (dom (table s)) = card (set (keys_of s xs))" using indexed_dom [OF a(1)] by simp
  also have "\<dots> = length (keys_of s xs)"
    using indexed_distinct_keys [OF a] by (rule distinct_card)
  finally show ?thesis by (simp add: keys_of_def)
qed

lemma evict_wellformed:
  assumes "wellformed s xs" "a \<in> set xs"
  shows "\<exists>s'. evict (Some a) s = Inr s' \<and> wellformed s' (remove1 a xs) \<and>
     table s' = (table s)(key (heap s a) := None) \<and> same_frame s s'"
proof -
  from assms have l: "linked s xs" and i: "indexed s xs" and f: "\<forall>a \<in> set xs. a < fresh s"
    by (auto simp: wellformed_def)
  from evict_linked [OF l assms(2)] obtain s' where s': "evict (Some a) s = Inr s'"
    "linked s' (remove1 a xs)" "table s' = (table s)(key (heap s a) := None)" "same_frame s s'"
    by blast
  have d: "distinct xs" using l by (simp add: linked_def)
  have inj: "b = c" if "b \<in> set xs" "c \<in> set xs" "key (heap s b) = key (heap s c)" for b c
    using i that unfolding indexed_def by (metis option.inject)
  have "indexed s' (remove1 a xs)"
    using i s'(3,4) d assms(2) inj [of _ a] unfolding indexed_def same_frame_def same_payload_def
    by (auto simp: set_remove1_eq) 
  moreover have "\<forall>b \<in> set (remove1 a xs). b < fresh s'"
    using f s'(4) d by (auto simp: same_frame_def)
  ultimately show ?thesis using s' by (auto simp: wellformed_def)
qed

lemma setHead_wellformed:
  assumes "wellformed s xs" "a \<in> set xs"
  shows "\<exists>s'. setHead (Some a) s = Inr s' \<and> wellformed s' (a # remove1 a xs) \<and>
     table s' = table s \<and> same_frame s s'"
proof -
  from assms have l: "linked s xs" and i: "indexed s xs" and f: "\<forall>a \<in> set xs. a < fresh s"
    by (auto simp: wellformed_def)
  from setHead_linked [OF l assms(2)] obtain s' where s': "setHead (Some a) s = Inr s'"
    "linked s' (a # remove1 a xs)" "table s' = table s" "same_frame s s'"
    by blast
  have d: "distinct xs" using l by (simp add: linked_def)
  have "indexed s' (a # remove1 a xs)"
    using i s'(3,4) d assms(2) unfolding indexed_def same_frame_def same_payload_def
    by (auto simp: set_remove1_eq) 
  moreover have "\<forall>b \<in> set (a # remove1 a xs). b < fresh s'"
    using f s'(4) d assms(2) by (auto simp: same_frame_def)
  ultimately show ?thesis using s' by (auto simp: wellformed_def)
qed


section \<open>Get and Delete\<close>

lemma sint_dec: "0 < sint (w :: int64) \<Longrightarrow> sint (w - 1) = sint w - 1"
proof -
  assume "0 < sint w"
  moreover have "sint w < 2 ^ 63" using sint_lt [of w] by simp
  ultimately show ?thesis
    by (simp add: sint_word_diff signed_take_bit_int_eq_self)
qed

lemma sint_inc: "sint (w :: int64) < sint (c :: int64) \<Longrightarrow> 0 \<le> sint w \<Longrightarrow> sint (w + 1) = sint w + 1"
proof -
  assume "sint w < sint c" "0 \<le> sint w"
  moreover have "sint c < 2 ^ 63" using sint_lt [of c] by simp
  ultimately show ?thesis
    by (simp add: sint_word_add signed_take_bit_int_eq_self)
qed

lemma Get_absent: "table s k = None \<Longrightarrow> Get k now s = Inr (s, [], False)"
  by (simp add: Get_def)

lemma Get_live:
  "table s k = Some a \<Longrightarrow> \<not> ttl (heap s a) < now \<Longrightarrow> Get k now s = Inr (s, data (heap s a), True)"
  by (simp add: Get_def)

lemma indexed_lookup: "indexed s xs \<Longrightarrow> table s k = Some a \<Longrightarrow> a \<in> set xs \<and> key (heap s a) = k"
  by (simp add: indexed_def)

lemma Get_stale:
  assumes "wellformed s xs" "table s k = Some a" "ttl (heap s a) < now"
  shows "\<exists>s'. Get k now s = Inr (s', [], False) \<and> wellformed s' (remove1 a xs) \<and>
     table s' = (table s)(k := None) \<and> size' s' = size' s - 1 \<and> config s' = config s \<and>
     fresh s' = fresh s \<and> same_payload s s'"
proof -
  have a: "a \<in> set xs" "key (heap s a) = k"
    using assms(1,2) indexed_lookup by (auto simp: wellformed_def)
  from evict_wellformed [OF assms(1) a(1)] obtain s1 where s1: "evict (Some a) s = Inr s1"
    "wellformed s1 (remove1 a xs)" "table s1 = (table s)(key (heap s a) := None)" "same_frame s s1"
    by blast
  have "wellformed (s1\<lparr>size' := size' s1 - 1\<rparr>) (remove1 a xs)"
    using s1(2) by (simp add: wellformed_def linked_def indexed_def)
  then show ?thesis using s1 a assms(2,3)
    by (auto simp: Get_def same_frame_def same_payload_def)
qed

lemma Delete_absent: "table s k = None \<Longrightarrow> Delete k s = Inr (s, False)"
  by (simp add: Delete_def)

lemma Delete_present:
  assumes "wellformed s xs" "table s k = Some a"
  shows "\<exists>s'. Delete k s = Inr (s', True) \<and> wellformed s' (remove1 a xs) \<and>
     table s' = (table s)(k := None) \<and> size' s' = size' s - 1 \<and> config s' = config s \<and>
     fresh s' = fresh s \<and> same_payload s s'"
proof -
  have a: "a \<in> set xs" "key (heap s a) = k"
    using assms(1,2) indexed_lookup by (auto simp: wellformed_def)
  from evict_wellformed [OF assms(1) a(1)] obtain s1 where s1: "evict (Some a) s = Inr s1"
    "wellformed s1 (remove1 a xs)" "table s1 = (table s)(key (heap s a) := None)" "same_frame s s1"
    by blast
  have "wellformed (s1\<lparr>size' := size' s1 - 1\<rparr>) (remove1 a xs)"
    using s1(2) by (simp add: wellformed_def linked_def indexed_def)
  then show ?thesis using s1 a assms(2)
    by (auto simp: Delete_def same_frame_def same_payload_def)
qed

lemma invariant_remove:
  assumes "invariant s xs" "a \<in> set xs" "wellformed s' (remove1 a xs)"
    "size' s' = size' s - 1" "config s' = config s"
  shows "invariant s' (remove1 a xs)"
proof -
  have "0 < length xs" using assms(2) by (cases xs) auto
  then have "0 < sint (size' s)" using assms(1) by (simp add: invariant_def)
  then have "sint (size' s') = sint (size' s) - 1" using assms(4) by (simp add: sint_dec)
  moreover have "int (length xs - 1) = int (length xs) - 1" using \<open>0 < length xs\<close>
    by (cases xs) auto
  ultimately show ?thesis using assms
    by (simp add: invariant_def length_remove1)
qed

section \<open>The two paths of Put\<close>

lemma Put_update:
  assumes "wellformed s xs" "table s k = Some a"
  shows "\<exists>s'. Put k d now s = Some (Inr (s', True)) \<and> wellformed s' (a # remove1 a xs) \<and>
     table s' = table s \<and> size' s' = size' s \<and> config s' = config s \<and> fresh s' = fresh s \<and>
     key (heap s' a) = k \<and> data (heap s' a) = d \<and> ttl (heap s' a) = now + Ttl (config s) \<and>
     (\<forall>b. b \<noteq> a \<longrightarrow> key (heap s' b) = key (heap s b) \<and> data (heap s' b) = data (heap s b) \<and>
        ttl (heap s' b) = ttl (heap s b))"
proof -
  define h1 where "h1 = (heap s)(a := (heap s a)\<lparr>data := d\<rparr>)"
  define h2 where "h2 = h1(a := (h1 a)\<lparr>ttl := now + Ttl (config s)\<rparr>)"
  define s0 where "s0 = s\<lparr>heap := h2\<rparr>"
  have a: "a \<in> set xs" "key (heap s a) = k"
    using assms indexed_lookup by (auto simp: wellformed_def)
  have n: "nexts (heap s0) = nexts (heap s)" "prevs (heap s0) = prevs (heap s)"
    by (auto simp: s0_def h2_def h1_def nexts_def prevs_def fun_eq_iff)
  have ky: "key (heap s0 x) = key (heap s x)" for x
    by (simp add: s0_def h2_def h1_def)
  have "head s0 = head s" "tail s0 = tail s" by (simp_all add: s0_def)
  from linked_cong [OF this n] have "linked s0 xs" using assms(1)
    by (simp add: wellformed_def)
  moreover have "indexed s0 xs" using assms(1) ky
    by (simp add: wellformed_def indexed_def) (simp add: s0_def)
  ultimately have w0: "wellformed s0 xs" using assms(1)
    by (simp add: wellformed_def) (simp add: s0_def)
  from setHead_wellformed [OF w0 a(1)] obtain s' where s': "setHead (Some a) s0 = Inr s'"
    "wellformed s' (a # remove1 a xs)" "table s' = table s0" "same_frame s0 s'"
    by blast
  have "Put k d now s = Some (Inr (s', True))"
    using assms(2) s'(1) by (simp add: Put_def Let_def s0_def h2_def h1_def)
  moreover have "table s' = table s" "size' s' = size' s" "config s' = config s" "fresh s' = fresh s"
    using s'(3,4) by (simp_all add: same_frame_def s0_def)
  moreover have "key (heap s' x) = key (heap s0 x)" "data (heap s' x) = data (heap s0 x)"
    "ttl (heap s' x) = ttl (heap s0 x)" for x
    using s'(4) by (simp_all add: same_frame_def same_payload_def)
  ultimately show ?thesis using s'(2) a(2)
    by (simp add: s0_def h2_def h1_def)
qed

lemma wellformed_tail: "wellformed s xs \<Longrightarrow> xs \<noteq> [] \<Longrightarrow> tail s = Some (last xs)"
proof -
  assume w: "wellformed s xs" and "xs \<noteq> []"
  then obtain ys a where "xs = ys @ [a]" by (metis rev_exhaust)
  then show ?thesis using w linked_ends(2) [of s ys a "[]"] by (simp add: wellformed_def)
qed

lemma wellformed_Nil: "wellformed s [] \<Longrightarrow> head s = None \<and> tail s = None \<and> table s = Map.empty"
  by (auto simp: wellformed_def linked_def indexed_def)

lemma make_room_free:
  assumes "sint (size' s) < sint (Capacity (config s))"
  shows "make_room s = Some (Inr s)"
  using assms by (subst make_room.simps) (simp add: word_sle_eq)

lemma make_room_full:
  assumes "invariant s xs" "1 \<le> sint (Capacity (config s))"
    "int (length xs) = sint (Capacity (config s))"
  shows "\<exists>s1. make_room s = Some (Inr s1) \<and> invariant s1 (butlast xs) \<and>
     table s1 = (table s)(key (heap s (last xs)) := None) \<and> config s1 = config s \<and>
     fresh s1 = fresh s \<and> same_payload s s1"
proof -
  have w: "wellformed s xs" and sz: "sint (size' s) = int (length xs)"
    using assms(1) by (simp_all add: invariant_def)
  have ne: "xs \<noteq> []" using assms(2,3) by auto
  then have la: "last xs \<in> set xs" by simp
  have d: "distinct xs" using w by (simp add: wellformed_def linked_def)
  have r: "remove1 (last xs) xs = butlast xs"
    using ne d by (induction xs) auto
  from evict_wellformed [OF w la] obtain s0 where s0: "evict (Some (last xs)) s = Inr s0"
    "wellformed s0 (butlast xs)" "table s0 = (table s)(key (heap s (last xs)) := None)"
    "same_frame s s0"
    unfolding r by blast
  define s1 where "s1 = s0\<lparr>size' := size' s0 - 1\<rparr>"
  have w1: "wellformed s1 (remove1 (last xs) xs)" using s0(2) unfolding r
    by (simp add: s1_def wellformed_def linked_def indexed_def)
  have "size' s1 = size' s - 1" "config s1 = config s"
    using s0(4) by (simp_all add: s1_def same_frame_def)
  from invariant_remove [OF assms(1) la w1 this] have i1: "invariant s1 (butlast xs)"
    unfolding r .
  moreover have "int (length (butlast xs)) < int (length xs)" using ne by (cases xs) auto
  ultimately have "sint (size' s1) < sint (Capacity (config s1))"
    using assms(3) \<open>config s1 = config s\<close> by (simp add: invariant_def)
  from make_room_free [OF this] have "make_room s = Some (Inr s1)"
    using sz assms(3) s0(1) wellformed_tail [OF w ne]
    by (subst make_room.simps) (simp add: word_sle_eq s1_def)
  then show ?thesis using i1 s0(3,4)
    by (auto simp: s1_def same_frame_def same_payload_def)
qed

lemma make_room_panics:
  assumes "invariant s xs" "sint (Capacity (config s)) \<le> 0"
  shows "make_room s = Some (Inl NilDereference)"
proof -
  have "xs = []" using assms by (simp add: invariant_def)
  then have "tail s = None" "head s = None" "sint (size' s) = 0"
    using assms(1) wellformed_Nil [of s] by (simp_all add: invariant_def)
  then show ?thesis using assms(2)
    by (subst make_room.simps) (simp add: word_sle_eq evict_def)
qed

lemma Put_insert:
  assumes "table s k = None" "make_room s = Some (Inr s1)" "wellformed s1 xs"
    "table s1 k = None" "config s1 = config s"
  shows "\<exists>s'. Put k d now s = Some (Inr (s', False)) \<and> wellformed s' (fresh s1 # xs) \<and>
     table s' = (table s1)(k \<mapsto> fresh s1) \<and> size' s' = size' s1 + 1 \<and> config s' = config s \<and>
     fresh s' = Suc (fresh s1) \<and>
     key (heap s' (fresh s1)) = k \<and> data (heap s' (fresh s1)) = d \<and>
     ttl (heap s' (fresh s1)) = now + Ttl (config s) \<and>
     (\<forall>b. b \<noteq> fresh s1 \<longrightarrow> key (heap s' b) = key (heap s1 b) \<and>
        data (heap s' b) = data (heap s1 b) \<and> ttl (heap s' b) = ttl (heap s1 b))"
proof -
  define a where "a = fresh s1"
  define nd where "nd = \<lparr>key = k, data = d, ttl = now + Ttl (config s), prev = None, next = None\<rparr>"
  define s3 where "s3 = s1\<lparr>heap := (heap s1)(a := nd), fresh := Suc a, table := (table s1)(k \<mapsto> a)\<rparr>"
  have l: "linked s1 xs" and i: "indexed s1 xs" and f: "\<forall>b \<in> set xs. b < fresh s1"
    using assms(3) by (auto simp: wellformed_def)
  have an: "a \<notin> set xs" using f by (auto simp: a_def)
  have "nexts (heap s3) = (nexts (heap s1))(a := None)" "prevs (heap s3) = (prevs (heap s1))(a := None)"
    by (auto simp: s3_def nd_def nexts_def prevs_def fun_eq_iff)
  then have l3: "linked s3 xs" using l an
    by (simp add: linked_def chain_upd) (simp add: s3_def)
  have "prev (heap s3 a) = None" "next (heap s3 a) = None" by (simp_all add: s3_def nd_def)
  from setHead_linked_new [OF l3 an this] obtain s4 where s4: "setHead (Some a) s3 = Inr s4"
    "linked s4 (a # xs)" "table s4 = table s3" "same_frame s3 s4"
    by blast
  define s' where "s' = s4\<lparr>size' := size' s4 + 1\<rparr>"
  have hp: "key (heap s' x) = key (heap s3 x)" "data (heap s' x) = data (heap s3 x)"
    "ttl (heap s' x) = ttl (heap s3 x)" for x
    using s4(4) by (simp_all add: s'_def same_frame_def same_payload_def)
  have fr: "fresh s' = Suc a" "config s' = config s" "size' s' = size' s1 + 1"
    "table s' = (table s1)(k \<mapsto> a)"
    using s4(3,4) assms(5) by (simp_all add: s'_def same_frame_def s3_def)
  have "linked s' (a # xs)" using s4(2) by (simp add: s'_def linked_def)
  moreover have "indexed s' (a # xs)"
    unfolding indexed_def
  proof (intro allI)
    fix k' b
    have "\<forall>c \<in> set xs. key (heap s1 c) \<noteq> k"
      using i assms(4) unfolding indexed_def by (metis option.distinct(1))
    then show "(table s' k' = Some b) = (b \<in> set (a # xs) \<and> key (heap s' b) = k')"
      using i an unfolding indexed_def fr(4) hp
      by (cases "b = a") (auto simp: s3_def nd_def)
  qed
  moreover have "\<forall>b \<in> set (a # xs). b < fresh s'" using f fr(1) by (auto simp: a_def)
  ultimately have "wellformed s' (a # xs)" by (simp add: wellformed_def)
  moreover have "Put k d now s = Some (Inr (s', False))"
    using assms(1,2) s4(1)
    by (simp add: Put_def Let_def s'_def s3_def nd_def a_def)
  ultimately show ?thesis using fr hp
    by (simp add: a_def [symmetric]) (simp add: s3_def nd_def)
qed

section \<open>The small cache\<close>

lemma two_keys_run: "Puts [(''a'', [1], 0), (''b'', [2], 1)] (New cfg2) = Some (Inr two_keys)"
  by (simp add: Put_def New_def cfg2_def make_room.simps word_sle_eq setHead_def Let_def
      two_keys_def node_a_def node_b_def set_next_def set_prev_def nil_node_def fun_upd_twist)

lemma two_keys_wellformed: "wellformed two_keys [1, 0]"
  by (auto simp: wellformed_def linked_def indexed_def two_keys_def node_a_def node_b_def
      nexts_def prevs_def)

lemma two_keys_invariant: "invariant two_keys [1, 0]"
  using two_keys_wellformed by (simp add: invariant_def) (simp add: two_keys_def cfg2_def)

section \<open>Put on a key that is present\<close>

text \<open>
  Claim C9. For every key that is present in the index, \<open>Put\<close> overwrites the stored
  value, sets the expiry to \<open>now + Ttl\<close>, moves the entry to the head of the recency
  order and returns \<open>hit = true\<close>; the count, the index and the key, value and expiry
  of every other entry are unchanged, and the other entries keep their relative order.
\<close>

theorem Put_present_updates_entry:
  assumes "wellformed s xs" and "table s k = Some a"
  shows "\<exists>s'. Put k d now s = Some (Inr (s', True)) \<and>
     data (heap s' a) = d \<and> ttl (heap s' a) = now + Ttl (config s) \<and> key (heap s' a) = k \<and>
     head s' = Some a \<and> wellformed s' (a # remove1 a xs) \<and>
     Size s' = Size s \<and> table s' = table s \<and>
     (\<forall>b. b \<noteq> a \<longrightarrow> key (heap s' b) = key (heap s b) \<and> data (heap s' b) = data (heap s b) \<and>
        ttl (heap s' b) = ttl (heap s b))"
proof -
  from Put_update [OF assms, of d now] obtain s' where s': "Put k d now s = Some (Inr (s', True))"
    "wellformed s' (a # remove1 a xs)" "table s' = table s" "size' s' = size' s"
    "key (heap s' a) = k" "data (heap s' a) = d" "ttl (heap s' a) = now + Ttl (config s)"
    "\<forall>b. b \<noteq> a \<longrightarrow> key (heap s' b) = key (heap s b) \<and> data (heap s' b) = data (heap s b) \<and>
        ttl (heap s' b) = ttl (heap s b)"
    by blast
  have "head s' = Some a"
    using s'(2) linked_ends(1) [of s' "[]" a "remove1 a xs"] by (simp add: wellformed_def)
  then show ?thesis using s' by (auto simp: Size_def)
qed

theorem Put_present_updates_entry_witness:
  "wellformed two_keys [1, 0] \<and> table two_keys ''a'' = Some 0 \<and>
   (\<exists>s'. Put ''a'' [7] 5 two_keys = Some (Inr (s', True)) \<and>
      data (heap s' 0) = [7] \<and> ttl (heap s' 0) = 105 \<and> key (heap s' 0) = ''a'' \<and>
      head s' = Some 0 \<and> wellformed s' [0, 1] \<and> Size s' = 2 \<and>
      key (heap s' 1) = ''b'' \<and> data (heap s' 1) = [2] \<and> ttl (heap s' 1) = 101)"
proof -
  have t: "table two_keys ''a'' = Some 0" by (simp add: two_keys_def)
  from Put_present_updates_entry [OF two_keys_wellformed t, of "[7]" 5]
  show ?thesis using two_keys_wellformed t
    by (auto simp: two_keys_def cfg2_def node_b_def Size_def)
qed

text \<open>
  Claim C10. \<open>Put\<close> never looks at the expiry: for a key that is present and whose
  expiry is at or before the current time, \<open>Put\<close> takes the update path. It returns
  \<open>hit = true\<close>, overwrites the value and resets the expiry on the same node, allocates
  no new node, and the count and the index are unchanged.
\<close>

theorem Put_refreshes_expired_entry:
  assumes "wellformed s xs" and "table s k = Some a" and "ttl (heap s a) \<le> now"
  shows "\<exists>s'. Put k d now s = Some (Inr (s', True)) \<and>
     data (heap s' a) = d \<and> ttl (heap s' a) = now + Ttl (config s) \<and>
     table s' = table s \<and> fresh s' = fresh s \<and> Size s' = Size s"
proof -
  from Put_update [OF assms(1,2), of d now] show ?thesis
    by (auto simp: Size_def)
qed

theorem Put_refreshes_expired_entry_witness:
  "wellformed two_keys [1, 0] \<and> table two_keys ''a'' = Some 0 \<and> ttl (heap two_keys 0) \<le> 500 \<and>
   (\<exists>s'. Put ''a'' [7] 500 two_keys = Some (Inr (s', True)) \<and>
      data (heap s' 0) = [7] \<and> ttl (heap s' 0) = 600 \<and> table s' ''a'' = Some 0 \<and>
      fresh s' = 2 \<and> Size s' = 2)"
proof -
  have t: "table two_keys ''a'' = Some 0" and e: "ttl (heap two_keys 0) \<le> 500"
    by (simp_all add: two_keys_def node_a_def)
  from Put_refreshes_expired_entry [OF two_keys_wellformed t e, of "[7]"]
  show ?thesis using two_keys_wellformed t e
    by (auto simp: two_keys_def cfg2_def Size_def)
qed

section \<open>Put on a key that is absent\<close>

lemma Put_absent_panics:
  assumes "invariant s xs" "table s k = None" "sint (Capacity (config s)) \<le> 0"
  shows "Put k d now s = Some (Inl NilDereference)"
  using make_room_panics [OF assms(1,3)] assms(2) by (simp add: Put_def)

lemma Put_absent:
  assumes "invariant s xs" "table s k = None" "1 \<le> sint (Capacity (config s))"
  defines "full \<equiv> \<not> int (length xs) < sint (Capacity (config s))"
  shows "\<exists>s'. Put k d now s = Some (Inr (s', False)) \<and>
     invariant s' (fresh s # (if full then butlast xs else xs)) \<and>
     table s' = (if full then (table s)(key (heap s (last xs)) := None) else table s)(k \<mapsto> fresh s) \<and>
     config s' = config s \<and> fresh s' = Suc (fresh s) \<and>
     key (heap s' (fresh s)) = k \<and> data (heap s' (fresh s)) = d \<and>
     ttl (heap s' (fresh s)) = now + Ttl (config s) \<and>
     (\<forall>b. b \<noteq> fresh s \<longrightarrow> key (heap s' b) = key (heap s b) \<and>
        data (heap s' b) = data (heap s b) \<and> ttl (heap s' b) = ttl (heap s b))"
proof -
  define xs1 where "xs1 = (if full then butlast xs else xs)"
  have le: "int (length xs) \<le> sint (Capacity (config s))" and sz: "sint (size' s) = int (length xs)"
    using assms(1,3) by (simp_all add: invariant_def)
  have "\<exists>s1. make_room s = Some (Inr s1) \<and> invariant s1 xs1 \<and>
     table s1 = (if full then (table s)(key (heap s (last xs)) := None) else table s) \<and>
     config s1 = config s \<and> fresh s1 = fresh s \<and> same_payload s s1"
  proof (cases full)
    case True
    then have "int (length xs) = sint (Capacity (config s))" using le by (simp add: full_def)
    from make_room_full [OF assms(1,3) this] show ?thesis using True by (simp add: xs1_def)
  next
    case False
    then have "sint (size' s) < sint (Capacity (config s))" using sz by (simp add: full_def)
    from make_room_free [OF this] show ?thesis using False assms(1)
      by (simp add: xs1_def same_payload_def)
  qed
  then obtain s1 where s1: "make_room s = Some (Inr s1)" "invariant s1 xs1"
    "table s1 = (if full then (table s)(key (heap s (last xs)) := None) else table s)"
    "config s1 = config s" "fresh s1 = fresh s" "same_payload s s1"
    by blast
  have lt: "int (length xs1) < sint (Capacity (config s))"
  proof (cases full)
    case True
    then have "xs \<noteq> []" using assms(3) by (auto simp: full_def)
    then have "int (length (butlast xs)) < int (length xs)" by (cases xs) auto
    then show ?thesis using True le by (simp add: xs1_def)
  next
    case False
    then show ?thesis by (simp add: xs1_def full_def)
  qed
  have w1: "wellformed s1 xs1" and sz1: "sint (size' s1) = int (length xs1)"
    using s1(2) by (simp_all add: invariant_def)
  have k1: "table s1 k = None" using s1(3) assms(2) by simp
  from Put_insert [OF assms(2) s1(1) w1 k1 s1(4), of d now] obtain s' where
    s': "Put k d now s = Some (Inr (s', False))" "wellformed s' (fresh s1 # xs1)"
    "table s' = (table s1)(k \<mapsto> fresh s1)" "size' s' = size' s1 + 1" "config s' = config s"
    "fresh s' = Suc (fresh s1)" "key (heap s' (fresh s1)) = k" "data (heap s' (fresh s1)) = d"
    "ttl (heap s' (fresh s1)) = now + Ttl (config s)"
    "\<forall>b. b \<noteq> fresh s1 \<longrightarrow> key (heap s' b) = key (heap s1 b) \<and>
        data (heap s' b) = data (heap s1 b) \<and> ttl (heap s' b) = ttl (heap s1 b)"
    by blast
  have "sint (size' s1) < sint (Capacity (config s))" using lt sz1 by simp
  then have "sint (size' s') = int (length xs1) + 1"
    using sint_inc [of "size' s1" "Capacity (config s)"] sz1 s'(4) by simp
  then have "invariant s' (fresh s # xs1)"
    using s'(2,5) s1(5) lt by (simp add: invariant_def)
  then show ?thesis using s' s1(3,5,6) unfolding xs1_def same_payload_def
    by auto
qed

lemma invariant_move:
  assumes "invariant s xs" "a \<in> set xs" "wellformed s' (a # remove1 a xs)"
    "size' s' = size' s" "config s' = config s"
  shows "invariant s' (a # remove1 a xs)"
proof -
  have "0 < length xs" using assms(2) by (cases xs) auto
  then have "length (a # remove1 a xs) = length xs" using assms(2) by (simp add: length_remove1)
  then show ?thesis using assms by (simp add: invariant_def)
qed

lemma Put_result:
  assumes "invariant s xs" "Put k d now s = Some (Inr (s', hit))"
  shows "\<exists>xs' a. invariant s' xs' \<and> config s' = config s \<and> table s' k = Some a \<and>
     key (heap s' a) = k \<and> data (heap s' a) = d \<and> ttl (heap s' a) = now + Ttl (config s) \<and>
     hit = (table s k \<noteq> None)"
proof (cases "table s k")
  case (Some a)
  have w: "wellformed s xs" using assms(1) by (simp add: invariant_def)
  then have a: "a \<in> set xs" using Some indexed_lookup by (auto simp: wellformed_def)
  from Put_update [OF w Some, of d now] assms(2) have s': "wellformed s' (a # remove1 a xs)"
    "table s' = table s" "size' s' = size' s" "config s' = config s"
    "key (heap s' a) = k" "data (heap s' a) = d" "ttl (heap s' a) = now + Ttl (config s)" "hit"
    by auto
  from invariant_move [OF assms(1) a s'(1,3,4)] show ?thesis using s' Some by auto
next
  case None
  show ?thesis
  proof (cases "1 \<le> sint (Capacity (config s))")
    case True
    from Put_absent [OF assms(1) None True, of d now] assms(2) show ?thesis using None
      by (intro exI [of _ "fresh s # (if \<not> int (length xs) < sint (Capacity (config s)) then butlast xs else xs)"]
          exI [of _ "fresh s"]) auto
  next
    case False
    then have "sint (Capacity (config s)) \<le> 0" by simp
    from Put_absent_panics [OF assms(1) None this, of d now] assms(2) show ?thesis by simp
  qed
qed

section \<open>Expiry on read\<close>

lemma Get_expired_invariant:
  assumes "invariant s xs" "table s k = Some a" "ttl (heap s a) < now"
  shows "\<exists>s'. Get k now s = Inr (s', [], False) \<and> invariant s' (remove1 a xs) \<and>
     table s' = (table s)(k := None) \<and> sint (Size s') = sint (Size s) - 1 \<and> same_payload s s' \<and>
     config s' = config s"
proof -
  have w: "wellformed s xs" using assms(1) by (simp add: invariant_def)
  then have a: "a \<in> set xs" using assms(2) indexed_lookup by (auto simp: wellformed_def)
  from Get_stale [OF w assms(2,3)] obtain s' where s': "Get k now s = Inr (s', [], False)"
    "wellformed s' (remove1 a xs)" "table s' = (table s)(k := None)" "size' s' = size' s - 1"
    "config s' = config s" "same_payload s s'"
    by blast
  from invariant_remove [OF assms(1) a s'(2,4,5)] have i: "invariant s' (remove1 a xs)" .
  have "0 < sint (size' s)" using assms(1) a by (cases xs) (auto simp: invariant_def)
  then have "sint (size' s') = sint (size' s) - 1" using s'(4) by (simp add: sint_dec)
  then show ?thesis using s' i by (auto simp: Size_def)
qed

text \<open>
  Claim C2, as the code has it. \<open>Get\<close> tests \<open>ttl.Before(now)\<close>, so an entry is stale
  only when its expiry lies strictly before the current time. For a key that is present
  and stale, \<open>Get\<close> removes the entry from the index and from the recency order (the
  other entries keep their order), decrements the count by exactly one and returns
  \<open>found = false\<close>. For a key written at time \<open>T\<close> with time to live \<open>d\<close>, \<open>Get\<close> at
  any time up to and including \<open>T + d\<close> returns \<open>found = true\<close> with the value
  written, and \<open>Get\<close> at any time after \<open>T + d\<close> returns \<open>found = false\<close>.
\<close>

theorem Get_expiry_is_strict:
  assumes "invariant s xs"
  shows "(table s k = Some a \<and> ttl (heap s a) < now \<longrightarrow>
           (\<exists>s'. Get k now s = Inr (s', [], False) \<and> invariant s' (remove1 a xs) \<and>
              table s' = (table s)(k := None) \<and> sint (Size s') = sint (Size s) - 1)) \<and>
         (Put k v T s = Some (Inr (s1, hit)) \<longrightarrow>
           (if T + Ttl (config s) < now then \<exists>s2. Get k now s1 = Inr (s2, [], False)
            else Get k now s1 = Inr (s1, v, True)))"
proof (intro conjI impI)
  assume "table s k = Some a \<and> ttl (heap s a) < now"
  then have "table s k = Some a" "ttl (heap s a) < now" by simp_all
  from Get_expired_invariant [OF assms this]
  show "\<exists>s'. Get k now s = Inr (s', [], False) \<and> invariant s' (remove1 a xs) \<and>
     table s' = (table s)(k := None) \<and> sint (Size s') = sint (Size s) - 1"
    by blast
next
  assume "Put k v T s = Some (Inr (s1, hit))"
  from Put_result [OF assms this] obtain xs1 b where b: "invariant s1 xs1" "table s1 k = Some b"
    "data (heap s1 b) = v" "ttl (heap s1 b) = T + Ttl (config s)"
    by blast
  show "if T + Ttl (config s) < now then \<exists>s2. Get k now s1 = Inr (s2, [], False)
        else Get k now s1 = Inr (s1, v, True)"
  proof (cases "T + Ttl (config s) < now")
    case True
    then have "ttl (heap s1 b) < now" using b(4) by simp
    from Get_expired_invariant [OF b(1,2) this] show ?thesis using True by auto
  next
    case False
    then have "\<not> ttl (heap s1 b) < now" using b(4) by simp
    from Get_live [OF b(2) this] show ?thesis using False b(3) by simp
  qed
qed

theorem Get_expiry_is_strict_witness:
  "invariant two_keys [1, 0] \<and> table two_keys ''a'' = Some 0 \<and> ttl (heap two_keys 0) < 101 \<and>
   (\<exists>s'. Get ''a'' 101 two_keys = Inr (s', [], False) \<and> invariant s' [1] \<and>
      table s' ''a'' = None \<and> sint (Size s') = 1) \<and>
   (\<exists>s1. Put ''a'' [7] 5 two_keys = Some (Inr (s1, True)) \<and>
      Get ''a'' 105 s1 = Inr (s1, [7], True) \<and> (\<exists>s2. Get ''a'' 106 s1 = Inr (s2, [], False)))"
proof -
  have t: "table two_keys ''a'' = Some 0" and e: "ttl (heap two_keys 0) < 101"
    by (simp_all add: two_keys_def node_a_def)
  from Put_update [OF two_keys_wellformed t, of "[7]" 5] obtain s1 where
    s1: "Put ''a'' [7] 5 two_keys = Some (Inr (s1, True))" by blast
  have c: "Ttl (config two_keys) = 100" "sint (Size two_keys) = 2"
    by (simp_all add: two_keys_def cfg2_def Size_def)
  from Get_expiry_is_strict [OF two_keys_invariant, of "''a''" 0 101 "[7]" 5 s1 True]
    Get_expiry_is_strict [OF two_keys_invariant, of "''a''" 0 105 "[7]" 5 s1 True]
    Get_expiry_is_strict [OF two_keys_invariant, of "''a''" 0 106 "[7]" 5 s1 True]
  show ?thesis using two_keys_invariant t e s1 c by auto
qed

theorem Get_at_expiry_instant_still_hits:
  "Puts [(''a'', [1], 0), (''b'', [2], 1)] (New cfg2) = Some (Inr two_keys) \<and>
   Ttl cfg2 = 100 \<and> table two_keys ''a'' = Some 0 \<and> ttl (heap two_keys 0) \<le> 0 + 100 \<and>
   Get ''a'' (0 + 100) two_keys = Inr (two_keys, [1], True)"
  using two_keys_run by (simp add: Get_def two_keys_def node_a_def cfg2_def)

section \<open>The sweep of RemoveExpired\<close>

lemma indexed_inj:
  "indexed s xs \<Longrightarrow> b \<in> set xs \<Longrightarrow> c \<in> set xs \<Longrightarrow> key (heap s b) = key (heap s c) \<Longrightarrow> b = c"
  unfolding indexed_def by (metis option.inject)

lemma indexed_absent: "indexed s xs \<Longrightarrow> table s k = None \<Longrightarrow> b \<in> set xs \<Longrightarrow> key (heap s b) \<noteq> k"
  unfolding indexed_def by (metis option.distinct(1))

lemma filter_remove1_out:
  assumes "distinct xs" "a \<in> set xs" "P a" "\<not> Q a" "\<forall>b \<in> set xs. b \<noteq> a \<longrightarrow> P b = Q b"
  shows "length (filter P xs) = Suc (length (filter Q (remove1 a xs)))"
    and "filter (\<lambda>b. \<not> P b) xs = filter (\<lambda>b. \<not> Q b) (remove1 a xs)"
proof -
  from assms(2) obtain ys zs where xs: "xs = ys @ a # zs" by (auto simp: in_set_conv_decomp)
  then have r: "remove1 a xs = ys @ zs" using assms(1) by (simp add: remove1_append)
  have "filter P ys = filter Q ys" "filter P zs = filter Q zs"
    "filter (\<lambda>b. \<not> P b) ys = filter (\<lambda>b. \<not> Q b) ys" "filter (\<lambda>b. \<not> P b) zs = filter (\<lambda>b. \<not> Q b) zs"
    using assms(1,5) xs by (auto intro!: filter_cong)
  then show "length (filter P xs) = Suc (length (filter Q (remove1 a xs)))"
    and "filter (\<lambda>b. \<not> P b) xs = filter (\<lambda>b. \<not> Q b) (remove1 a xs)"
    using assms(3) xs r by simp_all
qed

lemma RemoveExpired_loop_sweep:
  assumes "wellformed s xs" "distinct ks"
  shows "\<exists>s'. RemoveExpired_loop (map (\<lambda>k. (k, now)) ks) s c =
       Inr (s', c + of_nat (length (filter (\<lambda>a. key (heap s a) \<in> set ks \<and> ttl (heap s a) < now) xs))) \<and>
     wellformed s' (filter (\<lambda>a. \<not> (key (heap s a) \<in> set ks \<and> ttl (heap s a) < now)) xs) \<and>
     size' s' = size' s - of_nat (length (filter (\<lambda>a. key (heap s a) \<in> set ks \<and> ttl (heap s a) < now) xs)) \<and>
     config s' = config s \<and> same_payload s s'"
  using assms
proof (induction ks arbitrary: s xs c)
  case Nil
  then show ?case by (simp add: same_payload_def)
next
  case (Cons k ks)
  let ?P = "\<lambda>a. key (heap s a) \<in> set (k # ks) \<and> ttl (heap s a) < now"
  let ?Q = "\<lambda>a. key (heap s a) \<in> set ks \<and> ttl (heap s a) < now"
  have i: "indexed s xs" and d: "distinct xs" using Cons.prems(1) by (simp_all add: wellformed_def linked_def)
  have k: "k \<notin> set ks" "distinct ks" using Cons.prems(2) by simp_all
  show ?case
  proof (cases "\<exists>a. table s k = Some a \<and> ttl (heap s a) < now")
    case False
    have "\<forall>b \<in> set xs. ?P b = ?Q b"
    proof
      fix b assume b: "b \<in> set xs"
      then have "table s (key (heap s b)) = Some b" using i by (simp add: indexed_def)
      then show "?P b = ?Q b" using False by auto
    qed
    then have "filter ?P xs = filter ?Q xs" "filter (\<lambda>a. \<not> ?P a) xs = filter (\<lambda>a. \<not> ?Q a) xs"
      by (auto intro!: filter_cong)
    moreover have "RemoveExpired_loop (map (\<lambda>k. (k, now)) (k # ks)) s c =
       RemoveExpired_loop (map (\<lambda>k. (k, now)) ks) s c"
      using False by (auto split: option.splits)
    ultimately show ?thesis using Cons.IH [OF Cons.prems(1) k(2), of c] by simp
  next
    case True
    then obtain a where a: "table s k = Some a" "ttl (heap s a) < now" by blast
    then have ax: "a \<in> set xs" "key (heap s a) = k" using i indexed_lookup by auto
    from Delete_present [OF Cons.prems(1) a(1)] obtain s1 where s1: "Delete k s = Inr (s1, True)"
      "wellformed s1 (remove1 a xs)" "size' s1 = size' s - 1" "config s1 = config s"
      "same_payload s s1"
      by blast
    have q: "key (heap s1 x) = key (heap s x)" "ttl (heap s1 x) = ttl (heap s x)" for x
      using s1(5) by (simp_all add: same_payload_def)
    from Cons.IH [OF s1(2) k(2), of "c + 1"] obtain s' where s': 
      "RemoveExpired_loop (map (\<lambda>k. (k, now)) ks) s1 (c + 1) =
         Inr (s', c + 1 + of_nat (length (filter ?Q (remove1 a xs))))"
      "wellformed s' (filter (\<lambda>a. \<not> ?Q a) (remove1 a xs))"
      "size' s' = size' s1 - of_nat (length (filter ?Q (remove1 a xs)))" "config s' = config s1"
      "same_payload s1 s'"
      unfolding q by blast
    have "\<forall>b \<in> set xs. b \<noteq> a \<longrightarrow> ?P b = ?Q b"
      using indexed_inj [OF i _ ax(1)] ax(2) by auto
    from filter_remove1_out [of xs a ?P ?Q, OF d ax(1) _ _ this]
    have f: "length (filter ?P xs) = Suc (length (filter ?Q (remove1 a xs)))"
      "filter (\<lambda>b. \<not> ?P b) xs = filter (\<lambda>b. \<not> ?Q b) (remove1 a xs)"
      using a(2) ax(2) k(1) by auto
    have "RemoveExpired_loop (map (\<lambda>k. (k, now)) (k # ks)) s c =
       RemoveExpired_loop (map (\<lambda>k. (k, now)) ks) s1 (c + 1)"
      using a s1(1) by simp
    moreover have "same_payload s s'" using s1(5) s'(5) by (simp add: same_payload_def)
    moreover have "size' s' = size' s - of_nat (Suc (length (filter ?Q (remove1 a xs))))"
      using s'(3) s1(3) by simp
    moreover have "c + 1 + of_nat (length (filter ?Q (remove1 a xs))) =
      c + (of_nat (Suc (length (filter ?Q (remove1 a xs)))) :: int64)" by simp
    ultimately show ?thesis using s'(1,2,4) s1(4) unfolding f
      by (intro exI [of _ s']) simp
  qed
qed

lemma sint_of_nat64: "n < 2 ^ 63 \<Longrightarrow> sint (of_nat n :: int64) = int n"
proof -
  assume "n < 2 ^ 63"
  then have "int n < 2 ^ 63" by (metis of_nat_less_iff of_nat_numeral of_nat_power)
  moreover have "(of_nat n :: int64) = word_of_int (int n)" by simp
  ultimately show ?thesis
    by (simp only: sint_sbintrunc') (simp add: signed_take_bit_int_eq_self)
qed

lemma sint_sub_of_nat:
  assumes "sint (w :: int64) = int (m + r)" 
  shows "sint (w - of_nat m) = int r" "sint (of_nat m :: int64) = int m"
proof -
  have "w = word_of_int (sint w)" by simp
  then have "w = of_nat (m + r)" using assms by (metis of_int_of_nat_eq)
  then have "w - of_nat m = of_nat r" by simp
  moreover have "int (m + r) < 2 ^ 63" using sint_lt [of w] assms by simp
  then have "r < 2 ^ 63" "m < 2 ^ 63"
    by (metis add_lessD1 add.commute of_nat_less_iff of_nat_numeral of_nat_power)+
  ultimately show "sint (w - of_nat m) = int r" "sint (of_nat m :: int64) = int m"
    by (simp_all add: sint_of_nat64)
qed

text \<open>
  Claim C8, as the code has it. \<open>RemoveExpired\<close> tests \<open>ttl.Before(now)\<close>, as
  \<open>Get\<close> does. For every state that satisfies the invariant, and a sweep that visits
  every key of the table once at the clock reading \<open>now\<close>, \<open>RemoveExpired\<close> deletes
  exactly the entries whose expiry lies strictly before \<open>now\<close>: the others stay in the
  index and in the recency order, in their order and with their key, value and expiry.
  It returns the number of entries it deleted, and the size afterwards is the size
  before minus that number.
\<close>

theorem RemoveExpired_deletes_stale_entries:
  assumes "invariant s xs" and "distinct ks" and "set ks = dom (table s)"
  shows "\<exists>s' n. RemoveExpired (map (\<lambda>k. (k, now)) ks) s = Inr (s', n) \<and>
     sint n = int (length (filter (\<lambda>a. ttl (heap s a) < now) xs)) \<and>
     invariant s' (filter (\<lambda>a. \<not> ttl (heap s a) < now) xs) \<and>
     (\<forall>k. table s' k = (case table s k of None \<Rightarrow> None
                          | Some a \<Rightarrow> if ttl (heap s a) < now then None else Some a)) \<and>
     same_payload s s' \<and>
     sint (Size s') = sint (Size s) - sint n"
proof -
  let ?P = "\<lambda>a. key (heap s a) \<in> set ks \<and> ttl (heap s a) < now"
  let ?S = "\<lambda>a. ttl (heap s a) < now"
  have w: "wellformed s xs" and sz: "sint (size' s) = int (length xs)"
    and cp: "int (length xs) \<le> max 0 (sint (Capacity (config s)))"
    using assms(1) by (simp_all add: invariant_def)
  have i: "indexed s xs" using w by (simp add: wellformed_def)
  have "\<forall>a \<in> set xs. ?P a = ?S a"
    using i assms(3) by (auto simp: indexed_def dom_def)
  then have f: "filter ?P xs = filter ?S xs" "filter (\<lambda>a. \<not> ?P a) xs = filter (\<lambda>a. \<not> ?S a) xs"
    by (auto intro!: filter_cong)
  define m where "m = length (filter ?S xs)"
  define ys where "ys = filter (\<lambda>a. \<not> ?S a) xs"
  from RemoveExpired_loop_sweep [OF w assms(2), of now 0] obtain s' where
    s': "RemoveExpired (map (\<lambda>k. (k, now)) ks) s = Inr (s', of_nat m)"
    "wellformed s' ys" "size' s' = size' s - of_nat m" "config s' = config s" "same_payload s s'"
    unfolding f RemoveExpired_def m_def ys_def by auto
  have len: "length xs = m + length ys"
    unfolding m_def ys_def by (simp add: sum_length_filter_compl)
  then have sz2: "sint (size' s) = int (m + length ys)" using sz by simp
  from sint_sub_of_nat [OF sz2] have n: "sint (size' s') = int (length ys)"
    "sint (of_nat m :: int64) = int m"
    using s'(3) by simp_all
  have inv: "invariant s' ys" using s'(2,4) n(1) cp len by (simp add: invariant_def)
  have tb: "table s' k = (case table s k of None \<Rightarrow> None
                          | Some a \<Rightarrow> if ttl (heap s a) < now then None else Some a)" for k
  proof -
    have i': "indexed s' ys" using s'(2) by (simp add: wellformed_def)
    have ky: "key (heap s' x) = key (heap s x)" for x using s'(5) by (simp add: same_payload_def)
    have e: "(table s' k = Some a) = (table s k = Some a \<and> \<not> ttl (heap s a) < now)" for a
      using i i' ky unfolding indexed_def ys_def by auto
    show ?thesis
    proof (cases "table s k")
      case None
      then have "table s' k \<noteq> Some b" for b using e [of b] by simp
      then have "table s' k = None" by (metis not_Some_eq)
      then show ?thesis using None by simp
    next
      case (Some a)
      show ?thesis
      proof (cases "ttl (heap s a) < now")
        case True
        then have "table s' k \<noteq> Some b" for b using e [of b] Some by auto
        then have "table s' k = None" by (metis not_Some_eq)
        then show ?thesis using Some True by simp
      next
        case False
        then show ?thesis using e [of a] Some by simp
      qed
    qed
  qed
  have "sint (Size s') = sint (Size s) - sint (of_nat m :: int64)"
    using n sz len by (simp add: Size_def)
  then show ?thesis using s'(1,5) n(2) inv tb unfolding m_def ys_def
    by (intro exI [of _ s'] exI [of _ "of_nat m"]) (simp add: m_def)
qed

theorem RemoveExpired_deletes_stale_entries_witness:
  "invariant two_keys [1, 0] \<and> distinct [''a'', ''b''] \<and> set [''a'', ''b''] = dom (table two_keys) \<and>
   (\<exists>s' n. RemoveExpired [(''a'', 101), (''b'', 101)] two_keys = Inr (s', n) \<and> sint n = 1 \<and>
      invariant s' [1] \<and> table s' ''a'' = None \<and> table s' ''b'' = Some 1 \<and>
      sint (Size s') = 1)"
proof -
  have d: "distinct [''a'', ''b'']" and k: "set [''a'', ''b''] = dom (table two_keys)"
    by (auto simp: two_keys_def)
  from RemoveExpired_deletes_stale_entries [OF two_keys_invariant d k, of 101]
  obtain s' n where r: "RemoveExpired [(''a'', 101), (''b'', 101)] two_keys = Inr (s', n)"
    "sint n = int (length (filter (\<lambda>a. ttl (heap two_keys a) < 101) [1, 0]))"
    "invariant s' (filter (\<lambda>a. \<not> ttl (heap two_keys a) < 101) [1, 0])"
    "\<forall>k. table s' k = (case table two_keys k of None \<Rightarrow> None
         | Some a \<Rightarrow> if ttl (heap two_keys a) < 101 then None else Some a)"
    "sint (Size s') = sint (Size two_keys) - sint n"
    by auto
  have h: "ttl (heap two_keys 0) = 100" "ttl (heap two_keys 1) = 101"
    "table two_keys ''a'' = Some 0" "table two_keys ''b'' = Some 1" "Size two_keys = 2"
    by (simp_all add: two_keys_def node_a_def node_b_def Size_def)
  have "sint n = 1" "invariant s' [1]" "table s' ''a'' = None" "table s' ''b'' = Some 1"
    "sint (Size s') = 1"
    using r(2,3,5) r(4) [rule_format, of "''a''"] r(4) [rule_format, of "''b''"] h by simp_all
  then show ?thesis using two_keys_invariant d k r(1) by simp
qed

theorem RemoveExpired_keeps_entry_at_expiry_instant:
  "table two_keys ''a'' = Some 0 \<and> ttl (heap two_keys 0) \<le> 100 \<and>
   RemoveExpired [(''a'', 100), (''b'', 100)] two_keys = Inr (two_keys, 0)"
proof -
  have h: "ttl (heap two_keys 0) = 100" "ttl (heap two_keys 1) = 101"
    "table two_keys ''a'' = Some 0" "table two_keys ''b'' = Some 1"
    by (simp_all add: two_keys_def node_a_def node_b_def)
  then show ?thesis by (simp add: RemoveExpired_def)
qed

section \<open>The invariant of the reachable states\<close>

lemma New_invariant: "invariant (New cfg) []"
  by (simp add: invariant_def wellformed_def linked_def indexed_def New_def)

lemma Get_invariant:
  assumes "invariant s xs" "Get k now s = Inr (s', d, hit)"
  shows "\<exists>xs'. invariant s' xs' \<and> config s' = config s"
proof (cases "table s k")
  case None
  then show ?thesis using assms by (auto simp: Get_def)
next
  case (Some a)
  show ?thesis
  proof (cases "ttl (heap s a) < now")
    case True
    from Get_expired_invariant [OF assms(1) Some True] assms(2) show ?thesis by auto
  next
    case False
    then show ?thesis using assms Some by (auto simp: Get_def)
  qed
qed

lemma Delete_invariant:
  assumes "invariant s xs" "Delete k s = Inr (s', hit)"
  shows "\<exists>xs'. invariant s' xs' \<and> config s' = config s"
proof (cases "table s k")
  case None
  then show ?thesis using assms by (auto simp: Delete_def)
next
  case (Some a)
  have w: "wellformed s xs" using assms(1) by (simp add: invariant_def)
  then have a: "a \<in> set xs" using Some indexed_lookup by (auto simp: wellformed_def)
  from Delete_present [OF w Some] assms(2) have s': "wellformed s' (remove1 a xs)"
    "size' s' = size' s - 1" "config s' = config s"
    by auto
  from invariant_remove [OF assms(1) a s'] show ?thesis using s'(3) by blast
qed

lemma RemoveExpired_loop_invariant:
  assumes "invariant s xs" "RemoveExpired_loop vs s c = Inr (s', n)"
  shows "\<exists>xs'. invariant s' xs' \<and> config s' = config s"
  using assms
proof (induction vs arbitrary: s xs c)
  case Nil
  then show ?case by auto
next
  case (Cons v vs)
  obtain k now where v: "v = (k, now)" by (cases v)
  show ?case
  proof (cases "\<exists>a. table s k = Some a \<and> ttl (heap s a) < now")
    case False
    then have "RemoveExpired_loop (v # vs) s c = RemoveExpired_loop vs s c"
      unfolding v by (auto split: option.splits)
    then show ?thesis using Cons by auto
  next
    case True
    then obtain a where a: "table s k = Some a" "ttl (heap s a) < now" by blast
    have w: "wellformed s xs" using Cons.prems(1) by (simp add: invariant_def)
    from Delete_present [OF w a(1)] obtain s1 where s1: "Delete k s = Inr (s1, True)" by blast
    from Delete_invariant [OF Cons.prems(1) s1] obtain xs1 where
      x: "invariant s1 xs1" "config s1 = config s" by blast
    have "RemoveExpired_loop (v # vs) s c = RemoveExpired_loop vs s1 (c + 1)"
      unfolding v using a s1 by simp
    then show ?thesis using Cons.IH [OF x(1), of "c + 1"] Cons.prems(2) x(2) by auto
  qed
qed

lemma Clear_loop_spec:
  assumes "wellformed s xs"
  shows "\<exists>s'. Clear_loop s = Some (Inr s') \<and> wellformed s' [] \<and> config s' = config s"
  using assms
proof (induction xs arbitrary: s rule: rev_induct)
  case Nil
  then have "head s = None" using wellformed_Nil by blast
  then show ?case using Nil by (subst Clear_loop.simps) simp
next
  case (snoc a xs)
  have t: "tail s = Some a" using wellformed_tail [OF snoc.prems] by simp
  have h: "head s \<noteq> None" using snoc.prems linked_ends(1) [of s xs a "[]"]
    by (simp add: wellformed_def)
  have d: "distinct (xs @ [a])" using snoc.prems by (simp add: wellformed_def linked_def)
  then have r: "remove1 a (xs @ [a]) = xs" by (simp add: remove1_append)
  from evict_wellformed [OF snoc.prems, of a] obtain s1 where s1: "evict (Some a) s = Inr s1"
    "wellformed s1 xs" "same_frame s s1"
    unfolding r by auto
  from snoc.IH [OF s1(2)] obtain s' where "Clear_loop s1 = Some (Inr s')" "wellformed s' []"
    "config s' = config s1" by blast
  then show ?case using t h s1(1,3)
    by (subst Clear_loop.simps) (simp add: same_frame_def)
qed

lemma Clear_invariant:
  assumes "invariant s xs"
  shows "\<exists>s'. Clear s = Some (Inr s') \<and> invariant s' [] \<and> config s' = config s"
proof -
  have "wellformed s xs" using assms by (simp add: invariant_def)
  from Clear_loop_spec [OF this] obtain s1 where s1: "Clear_loop s = Some (Inr s1)"
    "wellformed s1 []" "config s1 = config s" by blast
  have "invariant (s1\<lparr>size' := 0\<rparr>) []" using s1(2)
    by (simp add: invariant_def wellformed_def linked_def indexed_def)
  then show ?thesis using s1(1,3) by (simp add: Clear_def)
qed

lemma reachable_invariant: "reachable cfg s \<Longrightarrow> \<exists>xs. invariant s xs \<and> config s = cfg"
proof (induction rule: reachable.induct)
  case reach_New
  show ?case using New_invariant [of cfg] by (auto simp: New_def)
next
  case (reach_Get s k now s' d hit)
  then show ?case using Get_invariant by metis
next
  case (reach_Put s k d now s' hit)
  then show ?case using Put_result by metis
next
  case (reach_Delete s k s' hit)
  then show ?case using Delete_invariant by metis
next
  case (reach_Clear s s')
  then show ?case using Clear_invariant by (metis Inr_inject option.inject)
next
  case (reach_RemoveExpired s vs s' n)
  then show ?case using RemoveExpired_loop_invariant unfolding RemoveExpired_def by metis
qed

lemma Puts_reachable: "reachable cfg s \<Longrightarrow> Puts ps s = Some (Inr s') \<Longrightarrow> reachable cfg s'"
proof (induction ps arbitrary: s)
  case Nil
  then show ?case by simp
next
  case (Cons p ps)
  obtain k d now where p: "p = (k, d, now)" by (cases p)
  from Cons.prems(2) obtain s1 hit where s1: "Put k d now s = Some (Inr (s1, hit))"
    "Puts ps s1 = Some (Inr s')"
    unfolding p by (auto split: option.splits sum.splits)
  from reach_Put [OF Cons.prems(1) s1(1)] Cons.IH s1(2) show ?case by blast
qed

lemma two_keys_reachable: "reachable cfg2 two_keys"
  using Puts_reachable [OF reach_New two_keys_run] .

text \<open>
  Claim C4. In every state that is reachable from a fresh engine by \<open>Get\<close>, \<open>Put\<close>,
  \<open>Delete\<close>, \<open>Clear\<close> and \<open>RemoveExpired\<close>, the list is well linked, the count
  equals the number of nodes on the list and the number of keys in the index, and, for
  a capacity of at least one, the count is at most the capacity at the end of every
  \<open>Put\<close>.
\<close>

theorem reachable_count_matches_index_and_order:
  assumes "reachable cfg s"
  shows "\<exists>xs. linked s xs \<and> sint (Size s) = int (length xs) \<and>
     sint (Size s) = int (card (dom (table s))) \<and>
     (\<forall>k d now s' hit. Put k d now s = Some (Inr (s', hit)) \<and> 1 \<le> sint (Capacity cfg) \<longrightarrow>
        sint (Size s') \<le> sint (Cap s') \<and> Cap s' = Capacity cfg)"
proof -
  from reachable_invariant [OF assms] obtain xs where i: "invariant s xs" and c: "config s = cfg"
    by blast
  have w: "linked s xs" "indexed s xs" "distinct xs" "sint (size' s) = int (length xs)"
    using i by (simp_all add: invariant_def wellformed_def linked_def)
  have cd: "card (dom (table s)) = length xs" using indexed_card [OF w(2,3)] .
  have p: "\<forall>k d now s' hit. Put k d now s = Some (Inr (s', hit)) \<and> 1 \<le> sint (Capacity cfg) \<longrightarrow>
        sint (Size s') \<le> sint (Cap s') \<and> Cap s' = Capacity cfg"
  proof (intro allI impI, elim conjE)
    fix k d now s' hit
    assume "Put k d now s = Some (Inr (s', hit))" and cap: "1 \<le> sint (Capacity cfg)"
    from Put_result [OF i this(1)] obtain xs' where "invariant s' xs'" "config s' = config s"
      by blast
    then show "sint (Size s') \<le> sint (Cap s') \<and> Cap s' = Capacity cfg"
      using cap c by (simp add: invariant_def Size_def Cap_def)
  qed
  have "sint (Size s) = int (length xs)" "sint (Size s) = int (card (dom (table s)))"
    using w(4) cd by (simp_all add: Size_def)
  with w(1) p show ?thesis by blast
qed

theorem reachable_count_matches_index_and_order_witness:
  "reachable cfg2 two_keys \<and> linked two_keys [1, 0] \<and> sint (Size two_keys) = 2 \<and>
   card (dom (table two_keys)) = 2 \<and> 1 \<le> sint (Capacity cfg2) \<and>
   (\<exists>s'. Put ''c'' [3] 2 two_keys = Some (Inr (s', False)) \<and> sint (Size s') \<le> sint (Cap s') \<and>
      Cap s' = 2)"
proof -
  from reachable_count_matches_index_and_order [OF two_keys_reachable] obtain xs where
    x: "linked two_keys xs" "sint (Size two_keys) = int (length xs)"
    "sint (Size two_keys) = int (card (dom (table two_keys)))"
    "\<forall>k d now s' hit. Put k d now two_keys = Some (Inr (s', hit)) \<and> 1 \<le> sint (Capacity cfg2) \<longrightarrow>
        sint (Size s') \<le> sint (Cap s') \<and> Cap s' = Capacity cfg2"
    by blast
  have l: "linked two_keys [1, 0]" using two_keys_wellformed by (simp add: wellformed_def)
  have c: "1 \<le> sint (Capacity (config two_keys))" "table two_keys ''c'' = None"
    "sint (Size two_keys) = 2" "Capacity cfg2 = 2"
    by (simp_all add: two_keys_def cfg2_def Size_def)
  from Put_absent [OF two_keys_invariant c(2,1), of "[3]" 2] obtain s' where
    s': "Put ''c'' [3] 2 two_keys = Some (Inr (s', False))" by blast
  have "sint (Size s') \<le> sint (Cap s') \<and> Cap s' = 2"
    using x(4) [rule_format, of "''c''" "[3]" 2 s' False] s' c(4) by auto
  moreover have "card (dom (table two_keys)) = 2" using x(3) c(3) by simp
  ultimately show ?thesis using two_keys_reachable l s' c by auto
qed

section \<open>Eviction of the least recently used entry\<close>

lemma take_append_take: "take n (xs @ take n ys) = take n (xs @ ys)"
  by (induction xs arbitrary: n) (auto simp: take_Cons split: nat.splits)

lemma Put_absent_keys:
  assumes "invariant s xs" "table s k = None" "1 \<le> sint (Capacity (config s))"
  shows "\<exists>s' xs'. Put k d now s = Some (Inr (s', False)) \<and> invariant s' xs' \<and>
     config s' = config s \<and>
     keys_of s' xs' = take (nat (sint (Capacity (config s)))) (k # keys_of s xs)"
proof -
  define full where "full = (\<not> int (length xs) < sint (Capacity (config s)))"
  define ys where "ys = (if full then butlast xs else xs)"
  from Put_absent [OF assms, of d now] obtain s' where s': "Put k d now s = Some (Inr (s', False))"
    "invariant s' (fresh s # ys)" "config s' = config s" "key (heap s' (fresh s)) = k"
    "\<forall>b. b \<noteq> fresh s \<longrightarrow> key (heap s' b) = key (heap s b)"
    unfolding full_def ys_def by auto
  have le: "int (length xs) \<le> sint (Capacity (config s))" and f: "\<forall>b \<in> set xs. b < fresh s"
    using assms(1,3) by (simp_all add: invariant_def wellformed_def)
  have "set ys \<subseteq> set xs" unfolding ys_def by (auto dest: in_set_butlastD)
  then have "\<forall>b \<in> set ys. b \<noteq> fresh s" using f by (metis less_irrefl subsetD)
  then have "\<forall>b \<in> set ys. key (heap s' b) = key (heap s b)" using s'(5) by simp
  then have "keys_of s' ys = keys_of s ys" by (simp add: keys_of_def)
  then have k1: "keys_of s' (fresh s # ys) = k # keys_of s ys" using s'(4) by (simp add: keys_of_def)
  have "keys_of s ys = take (nat (sint (Capacity (config s))) - 1) (keys_of s xs)"
  proof (cases full)
    case True
    then have "length xs = nat (sint (Capacity (config s)))" using le by (simp add: full_def)
    then show ?thesis using True
      by (simp add: ys_def keys_of_def butlast_conv_take take_map)
  next
    case False
    then have "length xs \<le> nat (sint (Capacity (config s))) - 1" by (simp add: full_def)
    then show ?thesis using False by (simp add: ys_def keys_of_def)
  qed
  moreover have "0 < nat (sint (Capacity (config s)))" using assms(3) by simp
  ultimately have "k # keys_of s ys = take (nat (sint (Capacity (config s)))) (k # keys_of s xs)"
    by (simp add: take_Cons')
  then show ?thesis using s'(1,2,3) k1 by metis
qed

lemma Puts_distinct_keys:
  assumes "invariant s xs" "1 \<le> sint (Capacity (config s))" "distinct (map fst ps)"
    "set (map fst ps) \<inter> set (keys_of s xs) = {}"
  shows "\<exists>s' xs'. Puts ps s = Some (Inr s') \<and> invariant s' xs' \<and> config s' = config s \<and>
     keys_of s' xs' = take (nat (sint (Capacity (config s)))) (rev (map fst ps) @ keys_of s xs)"
  using assms
proof (induction ps arbitrary: s xs)
  case Nil
  have "int (length xs) \<le> sint (Capacity (config s))"
    using Nil.prems(1,2) by (simp add: invariant_def)
  then have "length (keys_of s xs) \<le> nat (sint (Capacity (config s)))"
    by (simp add: keys_of_def)
  then show ?case using Nil.prems(1) by auto
next
  case (Cons p ps)
  obtain k d now where p: "p = (k, d, now)" by (cases p)
  let ?N = "nat (sint (Capacity (config s)))"
  have "indexed s xs" using Cons.prems(1) by (simp add: invariant_def wellformed_def)
  then have "k \<notin> dom (table s)" using Cons.prems(4) indexed_dom [of s xs] by (simp add: p)
  then have kn: "table s k = None" by (simp add: domIff)
  from Put_absent_keys [OF Cons.prems(1) kn Cons.prems(2), of d now] obtain s1 xs1 where
    s1: "Put k d now s = Some (Inr (s1, False))" "invariant s1 xs1" "config s1 = config s"
    "keys_of s1 xs1 = take ?N (k # keys_of s xs)"
    by blast
  have "set (keys_of s1 xs1) \<subseteq> insert k (set (keys_of s xs))"
    unfolding s1(4) using set_take_subset [of ?N "k # keys_of s xs"] by simp
  then have dj: "set (map fst ps) \<inter> set (keys_of s1 xs1) = {}"
    using Cons.prems(3,4) by (auto simp: p)
  have c1: "1 \<le> sint (Capacity (config s1))" "distinct (map fst ps)"
    using Cons.prems(2,3) s1(3) by simp_all
  from Cons.IH [OF s1(2) c1 dj] obtain s' xs' where s': "Puts ps s1 = Some (Inr s')"
    "invariant s' xs'" "config s' = config s1"
    "keys_of s' xs' = take ?N (rev (map fst ps) @ keys_of s1 xs1)"
    unfolding s1(3) by blast
  have "keys_of s' xs' = take ?N (rev (map fst (p # ps)) @ keys_of s xs)"
    unfolding s'(4) s1(4) take_append_take by (simp add: p)
  moreover have "Puts (p # ps) s = Some (Inr s')" using s1(1) s'(1) by (simp add: p)
  ultimately show ?case using s'(2,3) s1(3) by metis
qed

text \<open>
  Claim C3. For a capacity \<open>N\<close> of at least one, \<open>N + 1\<close> calls of \<open>Put\<close> with
  distinct keys on a fresh engine all return, and afterwards exactly the key put first
  is absent: the index holds the other \<open>N\<close> keys. And in every state that satisfies
  the invariant, a \<open>Put\<close> of a new key with \<open>size >= Capacity\<close> evicts the tail of
  the list, whatever its expiry: the recency order becomes the new node followed by the
  old order without its last node, and the index loses the key of the tail and gains
  the new key.
\<close>

theorem Put_evicts_least_recently_used:
  assumes "1 \<le> sint (Capacity cfg)"
  shows "(length ps = Suc (nat (sint (Capacity cfg))) \<and> distinct (map fst ps) \<longrightarrow>
           (\<exists>s'. Puts ps (New cfg) = Some (Inr s') \<and> dom (table s') = set (tl (map fst ps)) \<and>
              fst (hd ps) \<notin> dom (table s'))) \<and>
         (invariant s xs \<and> config s = cfg \<and> table s k = None \<and> Capacity cfg \<le>s size' s \<longrightarrow>
           (\<exists>s'. Put k d now s = Some (Inr (s', False)) \<and> tail s = Some (last xs) \<and>
              invariant s' (fresh s # butlast xs) \<and>
              table s' = (table s)(key (heap s (last xs)) := None, k \<mapsto> fresh s)))"
proof (intro conjI impI)
  assume a: "length ps = Suc (nat (sint (Capacity cfg))) \<and> distinct (map fst ps)"
  let ?N = "nat (sint (Capacity cfg))"
  have c: "1 \<le> sint (Capacity (config (New cfg)))" "keys_of (New cfg) [] = []"
    using assms by (simp_all add: New_def keys_of_def)
  from Puts_distinct_keys [OF New_invariant c(1), of ps] a obtain s' xs' where
    s': "Puts ps (New cfg) = Some (Inr s')" "invariant s' xs'"
    "keys_of s' xs' = take ?N (rev (map fst ps))"
    unfolding c(2) by (auto simp: New_def)
  obtain p ps' where ps: "ps = p # ps'" using a by (cases ps) auto
  then have "length (rev (map fst ps')) = ?N" using a by simp
  then have "take ?N (rev (map fst ps)) = rev (map fst ps')" unfolding ps by simp
  then have "set (keys_of s' xs') = set (tl (map fst ps))" using s'(3) ps by simp
  moreover have "dom (table s') = set (keys_of s' xs')"
    using s'(2) indexed_dom [of s' xs'] by (simp add: invariant_def wellformed_def)
  moreover have "fst (hd ps) \<notin> set (tl (map fst ps))" using a ps by simp
  ultimately show "\<exists>s'. Puts ps (New cfg) = Some (Inr s') \<and>
      dom (table s') = set (tl (map fst ps)) \<and> fst (hd ps) \<notin> dom (table s')"
    using s'(1) by auto
next
  assume a: "invariant s xs \<and> config s = cfg \<and> table s k = None \<and> Capacity cfg \<le>s size' s"
  then have i: "invariant s xs" and c: "1 \<le> sint (Capacity (config s))" and t: "table s k = None"
    using assms by simp_all
  have "sint (Capacity (config s)) \<le> int (length xs)"
    using a by (simp add: invariant_def word_sle_eq)
  then have full: "\<not> int (length xs) < sint (Capacity (config s))" and ne: "xs \<noteq> []"
    using c by auto
  have "wellformed s xs" using i by (simp add: invariant_def)
  from wellformed_tail [OF this ne] have "tail s = Some (last xs)" .
  then show "\<exists>s'. Put k d now s = Some (Inr (s', False)) \<and> tail s = Some (last xs) \<and>
      invariant s' (fresh s # butlast xs) \<and>
      table s' = (table s)(key (heap s (last xs)) := None, k \<mapsto> fresh s)"
    using Put_absent [OF i t c, of d now] full by auto
qed

theorem Put_evicts_least_recently_used_witness:
  "1 \<le> sint (Capacity cfg2) \<and>
   length [(''a'', [1], 0), (''b'', [2], 1), (''c'', [3], 2 :: time)] = Suc (nat (sint (Capacity cfg2))) \<and>
   distinct (map fst [(''a'', [1 :: byte], 0 :: time), (''b'', [2], 1), (''c'', [3], 2)]) \<and>
   (\<exists>s'. Puts [(''a'', [1], 0), (''b'', [2], 1), (''c'', [3], 2)] (New cfg2) = Some (Inr s') \<and>
      dom (table s') = {''b'', ''c''} \<and> ''a'' \<notin> dom (table s')) \<and>
   invariant two_keys [1, 0] \<and> config two_keys = cfg2 \<and> table two_keys ''c'' = None \<and>
   Capacity cfg2 \<le>s size' two_keys \<and>
   (\<exists>s'. Put ''c'' [3] 2 two_keys = Some (Inr (s', False)) \<and> tail two_keys = Some 0 \<and>
      invariant s' [2, 1] \<and> table s' = [''b'' \<mapsto> 1, ''c'' \<mapsto> 2])"
proof -
  have c: "1 \<le> sint (Capacity cfg2)" by (simp add: cfg2_def)
  have h: "config two_keys = cfg2" "table two_keys ''c'' = None" "Capacity cfg2 \<le>s size' two_keys"
    "fresh two_keys = 2" "key (heap two_keys 0) = ''a''" "nat (sint (Capacity cfg2)) = 2"
    by (simp_all add: two_keys_def cfg2_def word_sle_eq node_a_def)
  have t: "(table two_keys)(''a'' := None, ''c'' \<mapsto> 2) = [''b'' \<mapsto> 1, ''c'' \<mapsto> 2]"
    by (auto simp: two_keys_def fun_eq_iff)
  from Put_evicts_least_recently_used [OF c,
      of "[(''a'', [1], 0), (''b'', [2], 1), (''c'', [3], 2)]" two_keys "[1, 0]" "''c''" "[3]" 2]
  show ?thesis using c h t two_keys_invariant by auto
qed

section \<open>Get on a live key\<close>

text \<open>
  Claim C1 says that \<open>Get\<close> on a live key moves the entry to the head of the recency
  order. The code returns the value with \<open>hit = true\<close> and never calls \<open>setHead\<close>:
  the state is unchanged. In the cache for two entries, after \<open>Put("a")\<close> and
  \<open>Put("b")\<close>, a \<open>Get("a")\<close> at time 2 hits and leaves node 1 (key \<open>b\<close>) at the head
  and node 0 (key \<open>a\<close>) at the tail, so the next \<open>Put("c")\<close> evicts the key \<open>a\<close> that
  was just read and keeps \<open>b\<close>.
\<close>

theorem Get_hit_does_not_move_entry:
  "Puts [(''a'', [1], 0), (''b'', [2], 1)] (New cfg2) = Some (Inr two_keys) \<and>
   Get ''a'' 2 two_keys = Inr (two_keys, [1], True) \<and>
   head two_keys = Some 1 \<and> key (heap two_keys 1) = ''b'' \<and>
   tail two_keys = Some 0 \<and> key (heap two_keys 0) = ''a'' \<and>
   (\<exists>s'. Put ''c'' [3] 3 two_keys = Some (Inr (s', False)) \<and>
      table s' ''a'' = None \<and> table s' ''b'' = Some 1 \<and> table s' ''c'' = Some 2)"
proof -
  have h: "table two_keys ''a'' = Some 0" "\<not> ttl (heap two_keys 0) < 2" "data (heap two_keys 0) = [1]"
    "head two_keys = Some 1" "key (heap two_keys 1) = ''b''" "tail two_keys = Some 0"
    "key (heap two_keys 0) = ''a''" "table two_keys ''c'' = None" "table two_keys ''b'' = Some 1"
    "1 \<le> sint (Capacity (config two_keys))" "fresh two_keys = 2"
    "\<not> int (length [1 :: addr, 0]) < sint (Capacity (config two_keys))"
    by (simp_all add: two_keys_def node_a_def node_b_def cfg2_def)
  have g: "Get ''a'' 2 two_keys = Inr (two_keys, [1], True)"
    using Get_live [OF h(1,2)] h(3) by simp
  from Put_absent [OF two_keys_invariant h(8,10), of "[3]" 3] obtain s' where
    s': "Put ''c'' [3] 3 two_keys = Some (Inr (s', False))"
    "table s' = (table two_keys)(key (heap two_keys (last [1, 0])) := None, ''c'' \<mapsto> fresh two_keys)"
    using h(12) by auto
  have "table s' ''a'' = None" "table s' ''b'' = Some 1" "table s' ''c'' = Some 2"
    unfolding s'(2) using h by simp_all
  then show ?thesis using two_keys_run g h s'(1) by simp
qed

section \<open>Capacities that are not positive\<close>

text \<open>
  Claim C5 says that with capacity 0 a \<open>Put\<close> of a new key completes. In the code the
  loop of \<open>Put\<close> runs while \<open>size >= Capacity\<close>, which holds at once for \<open>0 >= 0\<close>,
  and calls \<open>evict\<close> on the \<open>nil\<close> tail of the empty list; \<open>evict\<close> has no \<open>nil\<close>
  check (\<open>setHead\<close> has one) and dereferences it. The first \<open>Put\<close> on a fresh engine
  of capacity 0 panics.
\<close>

theorem Put_with_capacity_zero_panics:
  "Put ''a'' [1] 0 (New \<lparr>Ttl = 100, Capacity = 0\<rparr>) = Some (Inl NilDereference)"
proof -
  have "sint (Capacity (config (New \<lparr>Ttl = 100, Capacity = 0\<rparr>))) \<le> 0"
    "table (New \<lparr>Ttl = 100, Capacity = 0\<rparr>) ''a'' = None"
    by (simp_all add: New_def)
  from Put_absent_panics [OF New_invariant this(2,1)] show ?thesis .
qed

text \<open>
  Claim C6, as the code has it. \<open>New\<close> checks nothing and has no error result: for
  every configuration, a capacity of zero or less included, it returns an engine with
  an empty index, an empty list, the count 0 and the configuration as given.
\<close>

theorem New_accepts_every_config:
  "table (New cfg) = Map.empty \<and> head (New cfg) = None \<and> tail (New cfg) = None \<and>
   Size (New cfg) = 0 \<and> config (New cfg) = cfg \<and> Cap (New cfg) = Capacity cfg \<and>
   invariant (New cfg) []"
  using New_invariant [of cfg] by (simp add: New_def Size_def Cap_def)

theorem New_accepts_every_config_witness:
  "table (New \<lparr>Ttl = 100, Capacity = - 1\<rparr>) = Map.empty \<and>
   Size (New \<lparr>Ttl = 100, Capacity = - 1\<rparr>) = 0 \<and>
   sint (Cap (New \<lparr>Ttl = 100, Capacity = - 1\<rparr>)) = - 1 \<and>
   invariant (New \<lparr>Ttl = 100, Capacity = - 1\<rparr>) []"
  using New_accepts_every_config [of "\<lparr>Ttl = 100, Capacity = - 1\<rparr>"] by simp

theorem New_accepts_capacity_zero:
  "sint (Capacity \<lparr>Ttl = 100, Capacity = 0\<rparr>) \<le> 0 \<and>
   Cap (New \<lparr>Ttl = 100, Capacity = 0\<rparr>) = 0 \<and> Size (New \<lparr>Ttl = 100, Capacity = 0\<rparr>) = 0 \<and>
   Get ''a'' 0 (New \<lparr>Ttl = 100, Capacity = 0\<rparr>) = Inr (New \<lparr>Ttl = 100, Capacity = 0\<rparr>, [], False) \<and>
   Delete ''a'' (New \<lparr>Ttl = 100, Capacity = 0\<rparr>) = Inr (New \<lparr>Ttl = 100, Capacity = 0\<rparr>, False)"
  by (simp add: New_def Cap_def Size_def Get_def Delete_def)

end
